theory Spec2Isabelle
  imports Main "HOL-Library.Word" "HOL-Library.Signed_Division"
begin

unbundle bit_operations_syntax

section \<open>The big integer of \<open>Int.hpp\<close>\<close>

text \<open>
  The class \<open>pyincpp::Int\<close> holds a vector of \<open>signed char\<close> digits (base 10, least
  significant first) and a \<open>signed char\<close> sign (1, -1 or 0). Both are modelled over
  \<open>int\<close>: on objects that satisfy the representation invariant every value stored
  in a digit lies between -1 and 99, so no store wraps. Vector sizes and loop indices
  are natural numbers. The native \<open>int\<close> of the constructor \<open>Int(int)\<close> is a 32 bit
  word, read in two's complement.
\<close>

record Int_t =
  digits :: "int list"
  sign :: int

text \<open>Every \<open>throw std::runtime_error(msg)\<close> of the source is the value \<open>runtime_error msg\<close>.\<close>

datatype error = runtime_error string

definition DivideByZero :: error where
  "DivideByZero = runtime_error ''Error: Divide by zero.''"

definition DomainError :: error where
  "DomainError = runtime_error ''Error: Math domain error.''"

definition InvalidLiteral :: error where
  "InvalidLiteral = runtime_error ''Error: Wrong integer literal.''"

definition NegativeSqrt :: error where
  "NegativeSqrt = runtime_error ''Error: Cannot compute square root of a negative integer.''"

subsection \<open>Private helpers\<close>

text \<open>\<open>remove_leading_zeros\<close>: walk from the back while the digit is 0, erase that tail.\<close>

definition remove_leading_zeros :: "Int_t \<Rightarrow> Int_t" where
  "remove_leading_zeros x = x\<lparr>digits := rev (dropWhile (\<lambda>d. d = 0) (rev (digits x)))\<rparr>"

text \<open>\<open>add_leading_zeros(n)\<close>: \<open>digits_.resize(digits_.size() + n, 0)\<close>.\<close>

definition add_leading_zeros :: "Int_t \<Rightarrow> nat \<Rightarrow> Int_t" where
  "add_leading_zeros x n = x\<lparr>digits := digits x @ replicate n 0\<rparr>"

text \<open>
  \<open>std::strlen\<close>: the number of characters before the first NUL. A C string cannot
  hold a NUL before its end, so on the strings a caller can pass this is \<open>length\<close>.
\<close>

definition strlen :: "string \<Rightarrow> nat" where
  "strlen chars = length (takeWhile (\<lambda>c. c \<noteq> CHR 0x00) chars)"

text \<open>The \<open>for\<close> loop of \<open>is_integer\<close>, from index \<open>i\<close>.\<close>

function is_integer_loop :: "string \<Rightarrow> nat \<Rightarrow> nat \<Rightarrow> bool" where
  "is_integer_loop chars i len =
     (if i < len
      then (if (of_char (chars ! i) :: nat) < of_char CHR ''0''
               \<or> (of_char (chars ! i) :: nat) > of_char CHR ''9''
            then False
            else is_integer_loop chars (i + 1) len)
      else True)"
  by pat_completeness auto
termination
  by (relation "measure (\<lambda>(chars, i, len). len - i)") auto

definition is_integer :: "string \<Rightarrow> nat \<Rightarrow> bool" where
  "is_integer chars len =
     (if len = 0 \<or> (len = 1 \<and> (chars ! 0 = CHR ''+'' \<or> chars ! 0 = CHR ''-''))
      then False
      else is_integer_loop chars (if chars ! 0 = CHR ''+'' \<or> chars ! 0 = CHR ''-'' then 1 else 0) len)"

text \<open>
  \<open>while (digits_[i] == v) ++i;\<close> as used by \<open>abs_inc\<close> (v = 9) and \<open>abs_dec\<close>
  (v = 0). The source does not test the index: running past the end of the vector is
  undefined behaviour, which is the value \<open>None\<close> here.
\<close>

function scan_while :: "int \<Rightarrow> int list \<Rightarrow> nat \<Rightarrow> nat option" where
  "scan_while v ds i =
     (if i < length ds
      then (if ds ! i = v then scan_while v ds (i + 1) else Some i)
      else None)"
  by pat_completeness auto
termination
  by (relation "measure (\<lambda>(v, ds, i). length ds - i)") auto

text \<open>\<open>while (i != 0) digits_[--i] = v;\<close>\<close>

fun fill_down :: "int list \<Rightarrow> nat \<Rightarrow> int \<Rightarrow> int list" where
  "fill_down ds 0 v = ds"
| "fill_down ds (Suc i) v = fill_down (ds[i := v]) i v"

definition abs_inc :: "Int_t \<Rightarrow> Int_t option" where
  "abs_inc x =
     (let ds = digits x @ [0] in
      case scan_while 9 ds 0 of
        None \<Rightarrow> None
      | Some i \<Rightarrow>
          let ds1 = ds[i := ds ! i + 1];
              ds2 = fill_down ds1 i 0
          in Some (remove_leading_zeros (x\<lparr>digits := ds2\<rparr>)))"

definition abs_dec :: "Int_t \<Rightarrow> Int_t option" where
  "abs_dec x =
     (let ds = digits x in
      case scan_while 0 ds 0 of
        None \<Rightarrow> None
      | Some i \<Rightarrow>
          let ds1 = ds[i := ds ! i - 1];
              ds2 = fill_down ds1 i 9;
              r = remove_leading_zeros (x\<lparr>digits := ds2\<rparr>)
          in Some (r\<lparr>sign := (if digits r = [] then 0 else sign r)\<rparr>))"

subsection \<open>Constructors\<close>

definition Int_default :: Int_t where
  "Int_default = \<lparr>digits = [], sign = 0\<rparr>"

text \<open>
  \<open>Int(const char* chars)\<close>. The argument is the text before the terminating NUL.
  \<open>chars[len - 1 - i] - '0'\<close> is computed on the character codes.
\<close>

definition Int_chars :: "string \<Rightarrow> error + Int_t" where
  "Int_chars chars =
     (let len = strlen chars in
      if \<not> is_integer chars len then Inl InvalidLiteral
      else
        let sign0 = (if chars ! 0 = CHR ''-'' then - 1 else 1);
            s = (if chars ! 0 = CHR ''-'' \<or> chars ! 0 = CHR ''+'' then 1 else 0);
            digit_len = len - s;
            ds = map (\<lambda>i. int (of_char (chars ! (len - 1 - i))) - int (of_char CHR ''0''))
                     [0..<digit_len];
            r = remove_leading_zeros \<lparr>digits = ds, sign = sign0\<rparr>
        in Inr (r\<lparr>sign := (if digits r = [] then 0 else sign r)\<rparr>))"

text \<open>
  \<open>Int(int integer)\<close>. The loop pushes \<open>integer % 10\<close> and divides by 10 while
  \<open>integer > 0\<close>; \<open>int_div\<close> and \<open>int_rem\<close> are the truncating \<open>/\<close> and \<open>%\<close> of
  \<open>int\<close>. \<open>std::abs\<close> negates a negative argument; on the least \<open>int\<close> the negation
  overflows and, in two's complement, gives the argument back, which is what negation
  of a word does.
\<close>

definition int_div :: "32 word \<Rightarrow> 32 word \<Rightarrow> 32 word" where
  "int_div a b = word_of_int (sint a sdiv sint b)"

definition int_rem :: "32 word \<Rightarrow> 32 word \<Rightarrow> 32 word" where
  "int_rem a b = word_of_int (sint a smod sint b)"

function push_digits :: "32 word \<Rightarrow> int list \<Rightarrow> int list" where
  "push_digits integer ds =
     (if 0 <s integer
      then push_digits (int_div integer 10) (ds @ [sint (int_rem integer 10)])
      else ds)"
  by pat_completeness auto
termination
proof (relation "measure (\<lambda>(integer, ds). nat (sint integer))")
  show "wf (measure (\<lambda>(integer :: 32 word, ds :: int list). nat (sint integer)))"
    by simp
next
  fix integer :: "32 word" and ds :: "int list"
  assume pos: "0 <s integer"
  then have p: "0 < sint integer"
    by (simp add: word_sless_alt)
  have b: "sint integer < 2 ^ 31"
    using sint_lt [of integer] by simp
  have q: "sint integer sdiv 10 = sint integer div 10"
    using p by (simp add: signed_divide_int_def sgn_if)
  have "sint (int_div integer 10) = signed_take_bit 31 (sint integer div 10)"
    using q by (simp add: int_div_def sint_sbintrunc')
  also have "\<dots> = sint integer div 10"
    by (rule signed_take_bit_int_eq_self) (use p b in auto)
  finally have "sint (int_div integer 10) < sint integer"
    using p by simp
  then show "((int_div integer 10, ds @ [sint (int_rem integer 10)]), (integer, ds))
               \<in> measure (\<lambda>(integer, ds). nat (sint integer))"
    using p by simp
qed

definition Int_int :: "32 word \<Rightarrow> Int_t" where
  "Int_int integer =
     (if integer = 0 then Int_default
      else
        let sign0 = (if 0 <s integer then 1 else - 1);
            integer1 = (if integer <s 0 then - integer else integer)
        in \<lparr>digits = push_digits integer1 [], sign = sign0\<rparr>)"

subsection \<open>Comparison\<close>

definition operator_eq :: "Int_t \<Rightarrow> Int_t \<Rightarrow> bool" where
  "operator_eq x y = (sign x = sign y \<and> digits x = digits y)"

text \<open>
  The digit loop of \<open>operator<=>\<close>: \<open>i\<close> runs from \<open>size - 1\<close> down to 0; the
  argument \<open>Suc i\<close> is the state in which index \<open>i\<close> is examined.
\<close>

fun cmp_loop :: "int list \<Rightarrow> int list \<Rightarrow> int \<Rightarrow> nat \<Rightarrow> int" where
  "cmp_loop a b s 0 = 0"
| "cmp_loop a b s (Suc i) =
     (if a ! i \<noteq> b ! i
      then (if s = 1
            then (if a ! i > b ! i then 1 else - 1)
            else (if a ! i > b ! i then - 1 else 1))
      else cmp_loop a b s i)"

definition operator_cmp :: "Int_t \<Rightarrow> Int_t \<Rightarrow> int" where
  "operator_cmp x y =
     (if sign x \<noteq> sign y
      then (if sign x = 1 then 1
            else if sign x = - 1 then - 1
            else (if sign y = 1 then - 1 else 1))
      else if length (digits x) \<noteq> length (digits y)
      then (if sign x = 1
            then (if length (digits x) > length (digits y) then 1 else - 1)
            else (if length (digits x) > length (digits y) then - 1 else 1))
      else cmp_loop (digits x) (digits y) (sign x) (length (digits x)))"

text \<open>The relational operators are the rewritten forms \<open>(x <=> y) @ 0\<close>.\<close>

definition operator_lt :: "Int_t \<Rightarrow> Int_t \<Rightarrow> bool" where
  "operator_lt x y = (operator_cmp x y < 0)"

definition operator_gt :: "Int_t \<Rightarrow> Int_t \<Rightarrow> bool" where
  "operator_gt x y = (operator_cmp x y > 0)"

definition operator_ge :: "Int_t \<Rightarrow> Int_t \<Rightarrow> bool" where
  "operator_ge x y = (operator_cmp x y \<ge> 0)"

subsection \<open>Examination\<close>

definition is_zero :: "Int_t \<Rightarrow> bool" where
  "is_zero x = (sign x = 0)"

definition is_positive :: "Int_t \<Rightarrow> bool" where
  "is_positive x = (sign x = 1)"

definition is_negative :: "Int_t \<Rightarrow> bool" where
  "is_negative x = (sign x = - 1)"

text \<open>
  \<open>is_odd\<close> reads \<open>digits_[0]\<close> when the sign is not 0; on an empty vector that read
  is undefined behaviour (\<open>None\<close>).
\<close>

definition is_odd :: "Int_t \<Rightarrow> bool option" where
  "is_odd x =
     (if is_zero x then Some False
      else (case digits x of [] \<Rightarrow> None | d # _ \<Rightarrow> Some (d AND 1 = 1)))"

subsection \<open>Negation, absolute value, addition and subtraction\<close>

definition operator_neg :: "Int_t \<Rightarrow> Int_t" where
  "operator_neg x = x\<lparr>sign := - sign x\<rparr>"

definition int_abs :: "Int_t \<Rightarrow> Int_t" where
  "int_abs x = (if sign x = - 1 then operator_neg x else x)"

text \<open>One round of the addition loop: \<open>c[i] += a[i] + b[i]; c[i + 1] = c[i] / 10; c[i] %= 10;\<close>\<close>

definition add_step :: "int list \<Rightarrow> int list \<Rightarrow> nat \<Rightarrow> int list \<Rightarrow> int list" where
  "add_step a b i c =
     (let c1 = c[i := c ! i + (a ! i + b ! i)];
          c2 = c1[i + 1 := c1 ! i sdiv 10]
      in c2[i := c2 ! i smod 10])"

text \<open>The part of \<open>operator+\<close> after the sign cases.\<close>

definition add_vertical :: "Int_t \<Rightarrow> Int_t \<Rightarrow> Int_t" where
  "add_vertical x y =
     (let size = max (length (digits x)) (length (digits y)) + 1;
          num1 = add_leading_zeros x (size - 1 - length (digits x));
          num2 = add_leading_zeros y (size - 1 - length (digits y));
          result = add_leading_zeros \<lparr>digits = [], sign = sign x\<rparr> size;
          c = fold (add_step (digits num1) (digits num2)) [0..<size - 1] (digits result)
      in remove_leading_zeros (result\<lparr>digits := c\<rparr>))"

text \<open>
  One round of the subtraction loop, on the pair of \<open>a\<close> (which the borrow changes) and
  \<open>c\<close>: \<open>if (a[i] < b[i]) { a[i + 1]--; a[i] += 10; } c[i] = a[i] - b[i];\<close>
  The source does not test \<open>i + 1\<close> against the size: it has put the operand of the
  larger magnitude first, so that the most significant position never borrows (lemma
  \<open>sub_step_inv\<close> below derives this), and the list update is in range.
\<close>

definition sub_step :: "int list \<Rightarrow> nat \<Rightarrow> int list \<times> int list \<Rightarrow> int list \<times> int list" where
  "sub_step b i ac =
     (case ac of (a, c) \<Rightarrow>
        let a2 = (if a ! i < b ! i
                  then (let a1 = a[i + 1 := a ! (i + 1) - 1] in a1[i := a1 ! i + 10])
                  else a)
        in (a2, c[i := a2 ! i - b ! i]))"

text \<open>The part of \<open>operator-\<close> after the sign cases.\<close>

definition sub_vertical :: "Int_t \<Rightarrow> Int_t \<Rightarrow> Int_t" where
  "sub_vertical x y =
     (let size = max (length (digits x)) (length (digits y));
          num1 = add_leading_zeros x (size - length (digits x));
          num2 = add_leading_zeros y (size - length (digits y));
          swap = (if sign x = 1 then operator_lt num1 num2 else operator_gt num1 num2);
          n1 = (if swap then num2 else num1);
          n2 = (if swap then num1 else num2);
          result = add_leading_zeros
                     \<lparr>digits = [], sign = (if swap then - sign x else sign x)\<rparr> size;
          c = snd (fold (sub_step (digits n2)) [0..<size] (digits n1, digits result));
          r = remove_leading_zeros (result\<lparr>digits := c\<rparr>)
      in r\<lparr>sign := (if digits r = [] then 0 else sign r)\<rparr>)"

function operator_plus :: "Int_t \<Rightarrow> Int_t \<Rightarrow> Int_t"
  and operator_minus :: "Int_t \<Rightarrow> Int_t \<Rightarrow> Int_t" where
  "operator_plus x y =
     (if sign x = 0 \<or> sign y = 0 then (if sign x = 0 then y else x)
      else if sign x = 1 \<and> sign y = - 1 then operator_minus x (operator_neg y)
      else if sign x = - 1 \<and> sign y = 1 then operator_minus y (operator_neg x)
      else add_vertical x y)"
| "operator_minus x y =
     (if sign x = 0 \<or> sign y = 0 then (if sign x = 0 then operator_neg y else x)
      else if sign x \<noteq> sign y then operator_plus x (operator_neg y)
      else sub_vertical x y)"
  by pat_completeness auto
termination
  by (relation "measure (\<lambda>v. case v of
          Inl (x, y) \<Rightarrow> (if sign x \<noteq> 0 \<and> sign y \<noteq> 0 \<and> sign x = - sign y \<and> (sign x = 1 \<or> sign x = - 1)
                         then 1 else 0)
        | Inr (x, y) \<Rightarrow> (if sign x \<noteq> 0 \<and> sign y \<noteq> 0 \<and> sign x \<noteq> sign y then 2 else 0))")
     (auto simp: operator_neg_def)

subsection \<open>Increment and decrement\<close>

definition operator_inc :: "Int_t \<Rightarrow> Int_t option" where
  "operator_inc x =
     (if sign x = 0 then Some (x\<lparr>digits := digits x @ [1], sign := 1\<rparr>)
      else if sign x = 1 then abs_inc x else abs_dec x)"

definition operator_dec :: "Int_t \<Rightarrow> Int_t option" where
  "operator_dec x =
     (if sign x = 0 then Some (x\<lparr>digits := digits x @ [1], sign := - 1\<rparr>)
      else if sign x = 1 then abs_dec x else abs_inc x)"

subsection \<open>Multiplication\<close>

text \<open>
  One round of the inner loop:
  \<open>c[i + j] += a[i] * b[j]; c[i + j + 1] += c[i + j] / 10; c[i + j] %= 10;\<close>
\<close>

definition mul_step :: "int list \<Rightarrow> int list \<Rightarrow> nat \<Rightarrow> nat \<Rightarrow> int list \<Rightarrow> int list" where
  "mul_step a b i j c =
     (let c1 = c[i + j := c ! (i + j) + a ! i * b ! j];
          c2 = c1[i + j + 1 := c1 ! (i + j + 1) + c1 ! (i + j) sdiv 10]
      in c2[i + j := c2 ! (i + j) smod 10])"

definition operator_times :: "Int_t \<Rightarrow> Int_t \<Rightarrow> Int_t" where
  "operator_times x y =
     (if sign x = 0 \<or> sign y = 0 then Int_int 0
      else
        let size = length (digits x) + length (digits y);
            result = add_leading_zeros
                       \<lparr>digits = [], sign = (if sign x = sign y then 1 else - 1)\<rparr> size;
            a = digits x;
            b = digits y;
            c = fold (\<lambda>i. fold (mul_step a b i) [0..<length b]) [0..<length a] (digits result)
        in remove_leading_zeros (result\<lparr>digits := c\<rparr>))"

subsection \<open>Division and remainder\<close>

text \<open>
  A function that contains a \<open>while\<close> loop whose exit is not structural returns an
  \<open>option\<close>: \<open>None\<close> is the loop that never ends. Inside it, \<open>Inl\<close> is the exception
  thrown and \<open>Inr\<close> the value returned.
\<close>

type_synonym 'a result = "(error + 'a) option"

abbreviation bind_result :: "'a result \<Rightarrow> ('a \<Rightarrow> 'b result) \<Rightarrow> 'b result" where
  "bind_result m f \<equiv>
     Option.bind m (\<lambda>r. case r of Inl e \<Rightarrow> Some (Inl e) | Inr v \<Rightarrow> f v)"

text \<open>\<open>while (num1 >= tmp) { result.digits_[i]++; num1 -= tmp; }\<close>\<close>

partial_function (option) div_inner ::
  "nat \<Rightarrow> Int_t \<Rightarrow> Int_t \<Rightarrow> Int_t \<Rightarrow> (Int_t \<times> Int_t) option" where
  "div_inner i tmp result num1 =
     (if operator_ge num1 tmp
      then div_inner i tmp
             (result\<lparr>digits := (digits result)[i := digits result ! i + 1]\<rparr>)
             (operator_minus num1 tmp)
      else Some (result, num1))"

declare div_inner.simps [code]

text \<open>
  The \<open>for\<close> loop of \<open>operator/\<close>, \<open>i\<close> from \<open>size - 1\<close> down to 0; the argument
  \<open>Suc i\<close> is the state in which position \<open>i\<close> comes next. Each round first erases
  the first digit of \<open>tmp\<close>.
\<close>

fun div_loop :: "nat \<Rightarrow> Int_t \<Rightarrow> Int_t \<Rightarrow> Int_t \<Rightarrow> (Int_t \<times> Int_t) option" where
  "div_loop 0 tmp result num1 = Some (result, num1)"
| "div_loop (Suc i) tmp result num1 =
     (let tmp1 = tmp\<lparr>digits := tl (digits tmp)\<rparr> in
      case div_inner i tmp1 result num1 of
        None \<Rightarrow> None
      | Some (result1, num2) \<Rightarrow> div_loop i tmp1 result1 num2)"

definition operator_div :: "Int_t \<Rightarrow> Int_t \<Rightarrow> Int_t result" where
  "operator_div x y =
     (if sign y = 0 then Some (Inl DivideByZero)
      else if length (digits x) < length (digits y) then Some (Inr (Int_int 0))
      else
        let size = length (digits x) - length (digits y) + 1;
            num1 = int_abs x;
            tmp = \<lparr>digits = replicate size 0 @ digits y, sign = 1\<rparr>;
            result = add_leading_zeros
                       \<lparr>digits = [], sign = (if sign x = sign y then 1 else - 1)\<rparr> size
        in case div_loop size tmp result num1 of
             None \<Rightarrow> None
           | Some (result1, num2) \<Rightarrow>
               let r = remove_leading_zeros result1
               in Some (Inr (r\<lparr>sign := (if digits r = [] then 0 else sign r)\<rparr>)))"

text \<open>\<open>while (result >= tmp) { result -= tmp; }\<close>\<close>

partial_function (option) mod_inner :: "Int_t \<Rightarrow> Int_t \<Rightarrow> Int_t option" where
  "mod_inner tmp result =
     (if operator_ge result tmp
      then mod_inner tmp (operator_minus result tmp)
      else Some result)"

declare mod_inner.simps [code]

fun mod_loop :: "nat \<Rightarrow> Int_t \<Rightarrow> Int_t \<Rightarrow> Int_t option" where
  "mod_loop 0 tmp result = Some result"
| "mod_loop (Suc i) tmp result =
     (let tmp1 = tmp\<lparr>digits := tl (digits tmp)\<rparr> in
      case mod_inner tmp1 result of
        None \<Rightarrow> None
      | Some result1 \<Rightarrow> mod_loop i tmp1 result1)"

definition operator_mod :: "Int_t \<Rightarrow> Int_t \<Rightarrow> Int_t result" where
  "operator_mod x y =
     (if sign y = 0 then Some (Inl DivideByZero)
      else if length (digits x) < length (digits y) then Some (Inr x)
      else
        let size = length (digits x) - length (digits y) + 1;
            result = int_abs x;
            tmp = \<lparr>digits = replicate size 0 @ digits y, sign = 1\<rparr>
        in case mod_loop size tmp result of
             None \<Rightarrow> None
           | Some result1 \<Rightarrow>
               let r = remove_leading_zeros result1
               in Some (Inr (r\<lparr>sign := (if digits r = [] then 0 else sign x)\<rparr>)))"

subsection \<open>Square root, power, greatest common divisor, least common multiple\<close>

text \<open>
  \<open>while (cur_sqrt != pre_sqrt) { pre_sqrt = cur_sqrt;
  cur_sqrt = (cur_sqrt + integer / cur_sqrt) / 2; }\<close>
\<close>

partial_function (option) sqrt_loop :: "Int_t \<Rightarrow> Int_t \<Rightarrow> Int_t \<Rightarrow> Int_t result" where
  "sqrt_loop integer cur_sqrt pre_sqrt =
     (if \<not> operator_eq cur_sqrt pre_sqrt
      then bind_result (operator_div integer cur_sqrt) (\<lambda>q.
           bind_result (operator_div (operator_plus cur_sqrt q) (Int_int 2)) (\<lambda>next_sqrt.
           sqrt_loop integer next_sqrt cur_sqrt))
      else Some (Inr cur_sqrt))"

declare sqrt_loop.simps [code]

text \<open>
  \<open>Int::sqrt\<close>. The seed has \<open>integer.digits() / 2 - 1\<close> zeros below a 1; that
  count is not negative, since an object that is not below 16 has two digits or more.
\<close>

definition int_sqrt :: "Int_t \<Rightarrow> Int_t result" where
  "int_sqrt integer =
     (if sign integer = - 1 then Some (Inl NegativeSqrt)
      else if is_zero integer then Some (Inr (Int_int 0))
      else if operator_lt integer (Int_int 4) then Some (Inr (Int_int 1))
      else if operator_lt integer (Int_int 9) then Some (Inr (Int_int 2))
      else if operator_lt integer (Int_int 16) then Some (Inr (Int_int 3))
      else
        let cur_sqrt = \<lparr>digits = replicate (length (digits integer) div 2 - 1) 0 @ [1], sign = 1\<rparr>;
            pre_sqrt = Int_int (- 1)
        in sqrt_loop integer cur_sqrt pre_sqrt)"

text \<open>
  The loop of \<open>Int::pow\<close>, on \<open>num\<close>, \<open>n\<close> and \<open>result\<close>; \<open>md\<close> is the
  parameter \<open>mod\<close>.
\<close>

partial_function (option) pow_loop ::
  "Int_t \<Rightarrow> Int_t \<Rightarrow> Int_t \<Rightarrow> Int_t \<Rightarrow> Int_t result" where
  "pow_loop md num n result =
     (if \<not> is_zero n
      then Option.bind (is_odd n) (\<lambda>n_odd.
           bind_result (if n_odd
                        then (if is_zero md then Some (Inr (operator_times result num))
                              else operator_mod (operator_times result num) md)
                        else Some (Inr result)) (\<lambda>result1.
           bind_result (if is_zero md then Some (Inr (operator_times num num))
                        else operator_mod (operator_times num num) md) (\<lambda>num1.
           bind_result (operator_div n (Int_int 2)) (\<lambda>n1.
           pow_loop md num1 n1 result1))))
      else Some (Inr result))"

declare pow_loop.simps [code]

text \<open>
  \<open>Int::pow\<close>. In \<open>base.sign_ == -1 && exp.is_odd() ? -1 : 1\<close> the parity of the
  exponent is read only when the base is negative.
\<close>

definition int_pow :: "Int_t \<Rightarrow> Int_t \<Rightarrow> Int_t \<Rightarrow> Int_t result" where
  "int_pow base exp md =
     (if length (digits base) = 1 \<and> digits base ! 0 = 1
      then (if sign base = - 1
            then Option.bind (is_odd exp)
                   (\<lambda>e_odd. Some (Inr (Int_int (if e_odd then - 1 else 1))))
            else Some (Inr (Int_int 1)))
      else if is_negative exp
      then (if is_zero base then Some (Inl DomainError) else Some (Inr (Int_int 0)))
      else pow_loop md base exp (Int_int 1))"

text \<open>\<open>while (!b.is_zero()) { auto t = b; b = a % b; a = t; }\<close>\<close>

partial_function (option) gcd_loop :: "Int_t \<Rightarrow> Int_t \<Rightarrow> Int_t result" where
  "gcd_loop a b =
     (if \<not> is_zero b
      then bind_result (operator_mod a b) (\<lambda>r. gcd_loop b r)
      else Some (Inr a))"

declare gcd_loop.simps [code]

definition int_gcd :: "Int_t \<Rightarrow> Int_t \<Rightarrow> Int_t result" where
  "int_gcd int1 int2 = gcd_loop int1 int2"

definition int_lcm :: "Int_t \<Rightarrow> Int_t \<Rightarrow> Int_t result" where
  "int_lcm int1 int2 =
     (if is_zero int1 \<or> is_zero int2 then Some (Inr (Int_int 0))
      else bind_result (int_gcd int1 int2) (\<lambda>g. operator_div (operator_times int1 int2) g))"

subsection \<open>Output and hash\<close>

text \<open>\<open>operator<<\<close>: the characters written to the stream.\<close>

definition operator_out :: "Int_t \<Rightarrow> string" where
  "operator_out integer =
     (if sign integer = 0 then ''0''
      else (if sign integer = - 1 then ''-'' else [])
           @ map (\<lambda>d. char_of (d + int (of_char CHR ''0''))) (rev (digits integer)))"

text \<open>
  \<open>std::hash<pyincpp::Int>\<close>. The hash of a \<open>signed char\<close> is left to the standard
  library: it is the parameter \<open>h\<close>, and \<open>std::size_t\<close> is a word of any length.
\<close>

definition hash :: "(int \<Rightarrow> 'w::len word) \<Rightarrow> Int_t \<Rightarrow> 'w word" where
  "hash h integer = fold (\<lambda>d value. value XOR push_bit 1 (h d)) (digits integer) (h (sign integer))"

subsection \<open>Random generation\<close>

text \<open>
  \<open>Int::random\<close> draws from a generator through three uniform distributions. The
  generator is the sequence \<open>gen\<close> of its raw outputs, and a draw from the distribution
  on \<open>lo .. hi\<close> is a value in that range which the raw output determines.
\<close>

definition uniform_int_distribution :: "int \<Rightarrow> int \<Rightarrow> nat \<Rightarrow> int" where
  "uniform_int_distribution lo hi g = lo + int g mod (hi - lo + 1)"

definition InvalidArgument :: error where
  "InvalidArgument =
     runtime_error ''Error: `digits` must be a non-negative integer or default = -1.''"

text \<open>
  \<open>Int::random(int digits)\<close>; \<open>n_digits\<close> is the parameter \<open>digits\<close>. The first draw
  is the number of digits when the parameter is -1, the next ones are the digits in
  order, and the last one replaces a most significant digit that came out as 0.
\<close>

definition Int_random :: "32 word \<Rightarrow> (nat \<Rightarrow> nat) \<Rightarrow> error + Int_t" where
  "Int_random n_digits gen =
     (if n_digits <s - 1 then Inl InvalidArgument
      else
        let n = (if n_digits = - 1 then nat (uniform_int_distribution 0 4300 (gen 0))
                 else nat (sint n_digits));
            k = (if n_digits = - 1 then 1 else 0);
            ds = map (\<lambda>i. uniform_int_distribution 0 9 (gen (k + i))) [0..<n];
            sign0 = (if ds = [] then 0 else 1);
            ds1 = (if ds \<noteq> [] \<and> last ds = 0
                   then ds[n - 1 := uniform_int_distribution 1 9 (gen (k + n))]
                   else ds)
        in Inr \<lparr>digits = ds1, sign = sign0\<rparr>)"

subsection \<open>The representation invariant and the integer an object stands for\<close>

text \<open>
  The invariant of the data model: every digit is between 0 and 9, the most
  significant digit is not 0, the sign is 1, -1 or 0, and it is 0 exactly when there is
  no digit.
\<close>

definition valid :: "Int_t \<Rightarrow> bool" where
  "valid x \<longleftrightarrow>
     (\<forall>d \<in> set (digits x). 0 \<le> d \<and> d \<le> 9)
     \<and> (digits x \<noteq> [] \<longrightarrow> last (digits x) \<noteq> 0)
     \<and> (sign x = 1 \<or> sign x = - 1 \<or> sign x = 0)
     \<and> (sign x = 0 \<longleftrightarrow> digits x = [])"

fun digits_val :: "int list \<Rightarrow> int" where
  "digits_val [] = 0"
| "digits_val (d # ds) = d + 10 * digits_val ds"

definition val :: "Int_t \<Rightarrow> int" where
  "val x = sign x * digits_val (digits x)"

text \<open>Two notions for the proofs: a list of decimal digits, and a list without its zeros at the end.\<close>

definition digits_ok :: "int list \<Rightarrow> bool" where
  "digits_ok ds \<longleftrightarrow> (\<forall>d \<in> set ds. 0 \<le> d \<and> d \<le> 9)"

definition strip :: "int list \<Rightarrow> int list" where
  "strip ds = rev (dropWhile (\<lambda>d. d = 0) (rev ds))"

text \<open>The three-way comparison of two integers, as \<open>operator<=>\<close> reports it.\<close>

definition cmp_spec :: "int \<Rightarrow> int \<Rightarrow> int" where
  "cmp_spec u v = (if u < v then - 1 else if u = v then 0 else 1)"

text \<open>
  The invariant of the addition loop before round \<open>k\<close>: the digits below \<open>k\<close> are final,
  digit \<open>k\<close> holds the carry, the digits above are still 0, and \<open>c\<close> is the sum of the
  \<open>k\<close> low digits of both operands.
\<close>

definition add_inv :: "int list \<Rightarrow> int list \<Rightarrow> nat \<Rightarrow> nat \<Rightarrow> int list \<Rightarrow> bool" where
  "add_inv a b n k c \<longleftrightarrow>
     length c = Suc n
     \<and> digits_val c = digits_val (take k a) + digits_val (take k b)
     \<and> (\<forall>j<k. 0 \<le> c ! j \<and> c ! j \<le> 9)
     \<and> 0 \<le> c ! k \<and> c ! k \<le> 1
     \<and> (\<forall>j. k < j \<and> j \<le> n \<longrightarrow> c ! j = 0)"

text \<open>
  The invariant of the subtraction loop before round \<open>k\<close>, on the pair of the minuend as
  the borrows have changed it and of \<open>c\<close>: the digits of \<open>c\<close> below \<open>k\<close> are final and
  the others still 0; digit \<open>k\<close> of the minuend may have lent 1, the digits above are
  untouched; what is left to subtract is accounted for.
\<close>

definition sub_inv :: "int list \<Rightarrow> int list \<Rightarrow> nat \<Rightarrow> nat \<Rightarrow> int list \<times> int list \<Rightarrow> bool" where
  "sub_inv a b n k ac \<longleftrightarrow>
     (case ac of (a', c) \<Rightarrow>
        length a' = n \<and> length c = n
        \<and> digits_val c + (digits_val a' - digits_val (take k a'))
            = digits_val a - digits_val (take k b)
        \<and> 0 \<le> digits_val c \<and> digits_val c < 10 ^ k
        \<and> (\<forall>j<k. 0 \<le> c ! j \<and> c ! j \<le> 9)
        \<and> (\<forall>j. k \<le> j \<and> j < n \<longrightarrow> c ! j = 0)
        \<and> (k < n \<longrightarrow> - 1 \<le> a' ! k \<and> a' ! k \<le> 9)
        \<and> (\<forall>j. k < j \<and> j < n \<longrightarrow> a' ! j = a ! j))"

text \<open>
  The invariants of the multiplication, outer and inner. Before row \<open>i\<close>, \<open>c\<close> is the product of
  the \<open>i\<close> low digits of \<open>a\<close> with \<open>b\<close>, in decimal digits. Inside row \<open>i\<close>, before
  column \<open>j\<close>, the digit at \<open>i + j\<close> also holds the carry and may be as large as 18.
\<close>

definition mul_outer_inv :: "int list \<Rightarrow> int list \<Rightarrow> nat \<Rightarrow> int list \<Rightarrow> bool" where
  "mul_outer_inv a b i c \<longleftrightarrow>
     length c = length a + length b
     \<and> digits_val c = digits_val (take i a) * digits_val b
     \<and> digits_ok c
     \<and> (\<forall>p. i + length b \<le> p \<and> p < length a + length b \<longrightarrow> c ! p = 0)"

definition mul_inner_inv :: "int list \<Rightarrow> int list \<Rightarrow> nat \<Rightarrow> nat \<Rightarrow> int list \<Rightarrow> bool" where
  "mul_inner_inv a b i j c \<longleftrightarrow>
     length c = length a + length b
     \<and> digits_val c = digits_val (take i a) * digits_val b
                      + a ! i * 10 ^ i * digits_val (take j b)
     \<and> (\<forall>p < length a + length b. p \<noteq> i + j \<longrightarrow> 0 \<le> c ! p \<and> c ! p \<le> 9)
     \<and> 0 \<le> c ! (i + j) \<and> c ! (i + j) \<le> 18
     \<and> (j = length b \<longrightarrow> c ! (i + j) \<le> 9)
     \<and> (\<forall>p. i + length b \<le> p \<and> i + j < p \<and> p < length a + length b \<longrightarrow> c ! p = 0)"

text \<open>
  The value of \<open>tmp\<close> in \<open>operator/\<close> and in \<open>operator%\<close> when \<open>i\<close> rounds of the
  outer loop are left: the digits of the divisor above \<open>i\<close> zeros, with sign 1.
\<close>

definition shifted :: "Int_t \<Rightarrow> nat \<Rightarrow> Int_t" where
  "shifted y i = \<lparr>digits = replicate i 0 @ digits y, sign = 1\<rparr>"

text \<open>
  The inner loop of \<open>operator/\<close> and of \<open>operator%\<close> tests \<open>num >= tmp\<close> and, in its
  body, does \<open>num -= tmp\<close>. \<open>subtracted tmp m num\<close> is \<open>num\<close> after \<open>m\<close> rounds of the body.
  The loop entered with \<open>num\<close> makes exactly \<open>k\<close> rounds when its test holds before each
  of the first \<open>k\<close> rounds and fails after them.
\<close>

definition subtracted :: "Int_t \<Rightarrow> nat \<Rightarrow> Int_t \<Rightarrow> Int_t" where
  "subtracted tmp m num = ((\<lambda>r. operator_minus r tmp) ^^ m) num"

definition inner_rounds :: "Int_t \<Rightarrow> Int_t \<Rightarrow> nat \<Rightarrow> bool" where
  "inner_rounds tmp num k \<longleftrightarrow>
     (\<forall>m \<in> set [0..<k]. operator_ge (subtracted tmp m num) tmp)
     \<and> \<not> operator_ge (subtracted tmp k num) tmp"

subsection \<open>Literals and their canonical form\<close>

definition is_digit :: "char \<Rightarrow> bool" where
  "is_digit c \<longleftrightarrow> (of_char CHR ''0'' :: nat) \<le> of_char c \<and> (of_char c :: nat) \<le> of_char CHR ''9''"

text \<open>
  The literal grammar of the specification: an optional single leading \<open>+\<close> or \<open>-\<close>,
  followed by one or more decimal digits.
\<close>

definition literal :: "string \<Rightarrow> bool" where
  "literal s =
     (case s of
        [] \<Rightarrow> False
      | c # cs \<Rightarrow>
          if c = CHR ''+'' \<or> c = CHR ''-'' then cs \<noteq> [] \<and> list_all is_digit cs
          else list_all is_digit s)"

text \<open>
  The normalised canonical form of a literal, in the specification's words: no \<open>+\<close>, no
  redundant leading zeros, \<open>0\<close> for zero, and \<open>-\<close> kept only in front of a value that is
  not zero.
\<close>

definition canonical :: "string \<Rightarrow> string" where
  "canonical s =
     (let body = (if hd s = CHR ''+'' \<or> hd s = CHR ''-'' then tl s else s);
          significant = dropWhile (\<lambda>c. c = CHR ''0'') body
      in if significant = [] then ''0''
         else (if hd s = CHR ''-'' then ''-'' else []) @ significant)"

definition dig :: "char \<Rightarrow> int" where
  "dig c = int (of_char c) - int (of_char CHR ''0'')"

definition undig :: "int \<Rightarrow> char" where
  "undig d = char_of (d + int (of_char CHR ''0''))"


section \<open>Digit lists\<close>

lemma digits_ok_simps [simp]:
  "digits_ok []"
  "digits_ok (d # ds) \<longleftrightarrow> 0 \<le> d \<and> d \<le> 9 \<and> digits_ok ds"
  "digits_ok (xs @ ys) \<longleftrightarrow> digits_ok xs \<and> digits_ok ys"
  "digits_ok (rev xs) \<longleftrightarrow> digits_ok xs"
  "digits_ok (replicate n 0)"
  by (auto simp: digits_ok_def)

lemma digits_ok_nth: "digits_ok ds \<Longrightarrow> i < length ds \<Longrightarrow> 0 \<le> ds ! i \<and> ds ! i \<le> 9"
  by (simp add: digits_ok_def)

lemma digits_okI: "(\<And>i. i < length ds \<Longrightarrow> 0 \<le> ds ! i \<and> ds ! i \<le> 9) \<Longrightarrow> digits_ok ds"
  by (auto simp: digits_ok_def in_set_conv_nth)

lemma digits_ok_take: "digits_ok ds \<Longrightarrow> digits_ok (take n ds)"
  by (auto simp: digits_ok_def dest: in_set_takeD)

lemma digits_ok_drop: "digits_ok ds \<Longrightarrow> digits_ok (drop n ds)"
  by (auto simp: digits_ok_def dest: in_set_dropD)

lemma digits_val_append:
  "digits_val (xs @ ys) = digits_val xs + 10 ^ length xs * digits_val ys"
  by (induction xs) (simp_all add: algebra_simps)

lemma digits_val_replicate_zero [simp]: "digits_val (replicate n 0) = 0"
  by (induction n) simp_all

lemma digits_val_snoc: "digits_val (xs @ [d]) = digits_val xs + 10 ^ length xs * d"
  by (simp add: digits_val_append)

lemma digits_val_take_Suc:
  "k < length xs \<Longrightarrow> digits_val (take (Suc k) xs) = digits_val (take k xs) + 10 ^ k * xs ! k"
  by (simp add: take_Suc_conv_app_nth digits_val_snoc)

lemma digits_val_update:
  "i < length xs \<Longrightarrow> digits_val (xs[i := v]) = digits_val xs + (v - xs ! i) * 10 ^ i"
proof (induction xs arbitrary: i)
  case Nil
  then show ?case by simp
next
  case (Cons x xs)
  show ?case
  proof (cases i)
    case 0
    then show ?thesis by simp
  next
    case (Suc j)
    with Cons.prems have "j < length xs" by simp
    then have "digits_val (xs[j := v]) = digits_val xs + (v - xs ! j) * 10 ^ j"
      by (rule Cons.IH)
    with Suc show ?thesis
      by (simp add: algebra_simps)
  qed
qed

lemma digits_val_nonneg: "digits_ok ds \<Longrightarrow> 0 \<le> digits_val ds"
  by (induction ds) simp_all

lemma digits_val_upper: "digits_ok ds \<Longrightarrow> digits_val ds < 10 ^ length ds"
  by (induction ds) simp_all

lemma digits_val_lower:
  "digits_ok ds \<Longrightarrow> ds \<noteq> [] \<Longrightarrow> last ds \<noteq> 0 \<Longrightarrow> 10 ^ (length ds - 1) \<le> digits_val ds"
proof (induction ds rule: rev_induct)
  case Nil
  then show ?case by simp
next
  case (snoc d ds)
  then have "1 \<le> d" and "0 \<le> digits_val ds"
    by (auto simp: digits_val_nonneg)
  then have "(10::int) ^ length ds \<le> 10 ^ length ds * d"
    by simp
  then have "(10::int) ^ length ds \<le> digits_val ds + 10 ^ length ds * d"
    using \<open>0 \<le> digits_val ds\<close> by linarith
  then show ?case
    by (simp add: digits_val_snoc)
qed

lemma digits_val_pos:
  "digits_ok ds \<Longrightarrow> ds \<noteq> [] \<Longrightarrow> last ds \<noteq> 0 \<Longrightarrow> 0 < digits_val ds"
  using digits_val_lower [of ds] by (smt (verit) zero_less_power)

lemma digits_val_zero_iff:
  "digits_ok ds \<Longrightarrow> digits_val ds = 0 \<longleftrightarrow> (\<forall>d \<in> set ds. d = 0)"
proof (induction ds)
  case Nil
  then show ?case by simp
next
  case (Cons d ds)
  then have "0 \<le> digits_val ds"
    by (simp add: digits_val_nonneg)
  with Cons show ?case by auto
qed

lemma digits_val_inj_length:
  "digits_ok xs \<Longrightarrow> digits_ok ys \<Longrightarrow> length xs = length ys \<Longrightarrow>
   digits_val xs = digits_val ys \<Longrightarrow> xs = ys"
proof (induction xs ys rule: list_induct2')
  case (4 x xs y ys)
  then have "x + 10 * digits_val xs = y + 10 * digits_val ys"
    and "0 \<le> x" "x \<le> 9" "0 \<le> y" "y \<le> 9"
    by simp_all
  then have "x = y" and "digits_val xs = digits_val ys"
    by presburger+
  with 4 show ?case by simp
qed simp_all

lemma digits_val_length_mono:
  assumes "digits_ok xs" "digits_ok ys" "xs \<noteq> [] \<longrightarrow> last xs \<noteq> 0" "length xs < length ys"
    "last ys \<noteq> 0"
  shows "digits_val xs < digits_val ys"
proof -
  have "ys \<noteq> []" using assms by auto
  have "digits_val xs < 10 ^ length xs"
    using assms by (simp add: digits_val_upper)
  also have "(10::int) ^ length xs \<le> 10 ^ (length ys - 1)"
    using assms by (intro power_increasing) auto
  also have "\<dots> \<le> digits_val ys"
    using assms \<open>ys \<noteq> []\<close> by (intro digits_val_lower)
  finally show ?thesis .
qed

lemma digits_val_inj:
  assumes "digits_ok xs" "digits_ok ys" "xs \<noteq> [] \<longrightarrow> last xs \<noteq> 0" "ys \<noteq> [] \<longrightarrow> last ys \<noteq> 0"
    "digits_val xs = digits_val ys"
  shows "xs = ys"
proof -
  have "length xs = length ys"
  proof (rule ccontr)
    assume "length xs \<noteq> length ys"
    then consider "length xs < length ys" | "length ys < length xs"
      by linarith
    then show False
    proof cases
      case 1
      then have "ys \<noteq> []" by auto
      with 1 assms digits_val_length_mono [of xs ys] show False by simp
    next
      case 2
      then have "xs \<noteq> []" by auto
      with 2 assms digits_val_length_mono [of ys xs] show False by simp
    qed
  qed
  with assms show ?thesis
    by (simp add: digits_val_inj_length)
qed

subsection \<open>Removing leading zeros\<close>

lemma digits_remove_leading_zeros [simp]:
  "digits (remove_leading_zeros x) = strip (digits x)"
  "sign (remove_leading_zeros x) = sign x"
  by (simp_all add: remove_leading_zeros_def strip_def)

lemma strip_snoc: "strip (ds @ [d]) = (if d = 0 then strip ds else ds @ [d])"
  by (simp add: strip_def)

lemma strip_Nil [simp]: "strip [] = []"
  by (simp add: strip_def)

lemma digits_val_strip [simp]: "digits_val (strip ds) = digits_val ds"
  by (induction ds rule: rev_induct) (simp_all add: strip_snoc digits_val_snoc)

lemma digits_ok_strip: "digits_ok ds \<Longrightarrow> digits_ok (strip ds)"
  by (induction ds rule: rev_induct) (simp_all add: strip_snoc)

lemma last_strip: "strip ds \<noteq> [] \<Longrightarrow> last (strip ds) \<noteq> 0"
  by (induction ds rule: rev_induct) (auto simp: strip_snoc split: if_splits)

lemma strip_id: "ds = [] \<or> last ds \<noteq> 0 \<Longrightarrow> strip ds = ds"
  by (cases ds rule: rev_cases) (auto simp: strip_snoc)

lemma strip_eq_Nil_iff:
  assumes "digits_ok ds"
  shows "strip ds = [] \<longleftrightarrow> digits_val ds = 0"
proof
  assume "strip ds = []"
  then have "digits_val (strip ds) = 0" by simp
  then show "digits_val ds = 0" by simp
next
  assume z: "digits_val ds = 0"
  show "strip ds = []"
  proof (rule ccontr)
    assume n: "strip ds \<noteq> []"
    then have "0 < digits_val (strip ds)"
      using assms by (intro digits_val_pos digits_ok_strip last_strip)
    with z show False by simp
  qed
qed

lemma length_strip_le: "length (strip ds) \<le> length ds"
  by (induction ds rule: rev_induct) (simp_all add: strip_snoc)

subsection \<open>Valid objects\<close>

lemma valid_alt:
  "valid x \<longleftrightarrow> digits_ok (digits x) \<and> (digits x \<noteq> [] \<longrightarrow> last (digits x) \<noteq> 0)
     \<and> (sign x = 1 \<or> sign x = - 1 \<or> sign x = 0) \<and> (sign x = 0 \<longleftrightarrow> digits x = [])"
  by (simp add: valid_def digits_ok_def)

lemma valid_digits_ok: "valid x \<Longrightarrow> digits_ok (digits x)"
  by (simp add: valid_alt)

lemma valid_strip_id: "valid x \<Longrightarrow> strip (digits x) = digits x"
  by (auto simp: valid_alt intro: strip_id)

lemma valid_digits_val_pos: "valid x \<Longrightarrow> sign x \<noteq> 0 \<Longrightarrow> 0 < digits_val (digits x)"
  by (auto simp: valid_alt intro: digits_val_pos)

lemma valid_digits_val_nonneg: "valid x \<Longrightarrow> 0 \<le> digits_val (digits x)"
  by (simp add: valid_alt digits_val_nonneg)

lemma val_sign:
  assumes "valid x"
  shows "sgn (val x) = sign x"
proof (cases "sign x = 0")
  case True
  then show ?thesis by (simp add: val_def)
next
  case False
  with assms have "0 < digits_val (digits x)"
    by (rule valid_digits_val_pos)
  moreover from assms False have "sign x = 1 \<or> sign x = - 1"
    by (auto simp: valid_alt)
  ultimately show ?thesis
    by (auto simp: val_def sgn_if)
qed

lemma val_abs: "valid x \<Longrightarrow> \<bar>val x\<bar> = digits_val (digits x)"
  using valid_digits_val_nonneg [of x]
  by (auto simp: val_def valid_alt abs_mult)

lemma val_inj:
  assumes "valid x" "valid y" "val x = val y"
  shows "x = y"
proof -
  have s: "sign x = sign y"
    using assms val_sign [of x] val_sign [of y] by simp
  have "digits_val (digits x) = digits_val (digits y)"
    using assms val_abs [of x] val_abs [of y] by simp
  then have "digits x = digits y"
    using assms by (intro digits_val_inj) (auto simp: valid_alt)
  with s show ?thesis by simp
qed

lemma valid_Int_default [simp]: "valid Int_default" "val Int_default = 0"
  by (simp_all add: valid_def Int_default_def val_def)

text \<open>The object built from digits in range and a sign of 1 or -1, normalised as the source does.\<close>

lemma valid_normalised:
  assumes "digits_ok ds" "s = 1 \<or> s = - 1"
  shows "valid \<lparr>digits = strip ds, sign = (if strip ds = [] then 0 else s)\<rparr>"
  using assms by (auto simp: valid_alt digits_ok_strip last_strip)

section \<open>Comparison\<close>

lemma valid_sign_cases: "valid x \<Longrightarrow> sign x = 1 \<or> sign x = - 1 \<or> sign x = 0"
  by (auto simp: valid_alt)

lemma power10_scale:
  fixes x y :: int
  assumes "y < x"
  shows "10 ^ i * y + 10 ^ i \<le> 10 ^ i * x"
proof -
  have "(10::int) ^ i * (y + 1) \<le> 10 ^ i * x"
    using assms by (intro mult_left_mono) simp_all
  then show ?thesis
    by (simp add: algebra_simps)
qed

lemma cmp_loop_take:
  assumes "digits_ok a" "digits_ok b" "i \<le> length a" "i \<le> length b"
  shows "cmp_loop a b s i =
    (if digits_val (take i a) = digits_val (take i b) then 0
     else if digits_val (take i b) < digits_val (take i a)
          then (if s = 1 then 1 else - 1)
          else (if s = 1 then - 1 else 1))"
  using assms
proof (induction i)
  case 0
  then show ?case by simp
next
  case (Suc i)
  let ?A = "digits_val (take i a)" and ?B = "digits_val (take i b)"
  have len: "i < length a" "i < length b"
    using Suc.prems by simp_all
  have A: "0 \<le> ?A" "?A < 10 ^ i"
    using Suc.prems len digits_val_nonneg [of "take i a"] digits_val_upper [of "take i a"]
    by (simp_all add: digits_ok_take min_def)
  have B: "0 \<le> ?B" "?B < 10 ^ i"
    using Suc.prems len digits_val_nonneg [of "take i b"] digits_val_upper [of "take i b"]
    by (simp_all add: digits_ok_take min_def)
  have SA: "digits_val (take (Suc i) a) = ?A + 10 ^ i * a ! i"
    and SB: "digits_val (take (Suc i) b) = ?B + 10 ^ i * b ! i"
    using len by (simp_all add: digits_val_take_Suc)
  show ?case
  proof (cases "a ! i = b ! i")
    case True
    with Suc SA SB show ?thesis by simp
  next
    case False
    then consider "a ! i < b ! i" | "b ! i < a ! i"
      by linarith
    then show ?thesis
    proof cases
      case 1
      from power10_scale [OF 1, of i] A B SA SB
      have "digits_val (take (Suc i) a) < digits_val (take (Suc i) b)"
        by linarith
      with 1 show ?thesis by simp
    next
      case 2
      from power10_scale [OF 2, of i] A B SA SB
      have "digits_val (take (Suc i) b) < digits_val (take (Suc i) a)"
        by linarith
      with 2 show ?thesis by simp
    qed
  qed
qed

lemma cmp_loop_full:
  assumes "digits_ok a" "digits_ok b" "length a = length b"
  shows "cmp_loop a b s (length a) =
    (if s = 1 then cmp_spec (digits_val a) (digits_val b)
     else cmp_spec (digits_val b) (digits_val a))"
  using cmp_loop_take [of a b "length a" s] assms
  by (auto simp: cmp_spec_def)

text \<open>Two operands of the same sign and the same length, zeros at the end allowed.\<close>

lemma operator_cmp_same_length:
  assumes "digits_ok (digits x)" "digits_ok (digits y)"
    "length (digits x) = length (digits y)" "sign x = sign y" "sign x = 1 \<or> sign x = - 1"
  shows "operator_cmp x y = cmp_spec (val x) (val y)"
  using assms cmp_loop_full [of "digits x" "digits y" "sign x"]
  by (auto simp: operator_cmp_def val_def cmp_spec_def)

lemma operator_cmp_valid:
  assumes "valid x" "valid y"
  shows "operator_cmp x y = cmp_spec (val x) (val y)"
proof (cases "sign x = sign y")
  case False
  have "sgn (val x) = sign x" "sgn (val y) = sign y"
    using assms by (simp_all add: val_sign)
  moreover have "sign x = 1 \<or> sign x = - 1 \<or> sign x = 0" "sign y = 1 \<or> sign y = - 1 \<or> sign y = 0"
    using assms by (simp_all add: valid_sign_cases)
  ultimately show ?thesis
    using False by (auto simp: operator_cmp_def cmp_spec_def sgn_if split: if_splits)
next
  case same: True
  show ?thesis
  proof (cases "sign x = 0")
    case True
    with same assms have "digits x = []" "digits y = []"
      by (simp_all add: valid_alt)
    with same True show ?thesis
      by (simp add: operator_cmp_def cmp_spec_def val_def)
  next
    case nz: False
    then have pm: "sign x = 1 \<or> sign x = - 1"
      using assms by (auto simp: valid_alt)
    have ne: "digits x \<noteq> []" "digits y \<noteq> []"
      using nz same assms by (auto simp: valid_alt)
    have ok: "digits_ok (digits x)" "digits_ok (digits y)"
      using assms by (simp_all add: valid_digits_ok)
    have lx: "last (digits x) \<noteq> 0" and ly: "last (digits y) \<noteq> 0"
      using ne assms by (auto simp: valid_alt)
    consider "length (digits x) < length (digits y)" | "length (digits y) < length (digits x)"
      | "length (digits x) = length (digits y)"
      by linarith
    then show ?thesis
    proof cases
      case 1
      then have "digits_val (digits x) < digits_val (digits y)"
        using ok lx ly by (intro digits_val_length_mono) simp_all
      with 1 same pm show ?thesis
        by (auto simp: operator_cmp_def cmp_spec_def val_def)
    next
      case 2
      then have "digits_val (digits y) < digits_val (digits x)"
        using ok lx ly by (intro digits_val_length_mono) simp_all
      with 2 same pm show ?thesis
        by (auto simp: operator_cmp_def cmp_spec_def val_def)
    next
      case 3
      with ok same pm show ?thesis
        by (intro operator_cmp_same_length)
    qed
  qed
qed

lemma operator_ge_valid: "valid x \<Longrightarrow> valid y \<Longrightarrow> operator_ge x y \<longleftrightarrow> val y \<le> val x"
  by (auto simp: operator_ge_def operator_cmp_valid cmp_spec_def)

lemma operator_lt_valid: "valid x \<Longrightarrow> valid y \<Longrightarrow> operator_lt x y \<longleftrightarrow> val x < val y"
  by (auto simp: operator_lt_def operator_cmp_valid cmp_spec_def)

lemma operator_gt_valid: "valid x \<Longrightarrow> valid y \<Longrightarrow> operator_gt x y \<longleftrightarrow> val y < val x"
  by (auto simp: operator_gt_def operator_cmp_valid cmp_spec_def)

lemma operator_eq_iff: "operator_eq x y \<longleftrightarrow> x = y" for x y :: Int_t
  by (auto simp: operator_eq_def)

section \<open>Counted iteration\<close>

lemma fold_upt_Suc: "fold f [0..<Suc n] s = f n (fold f [0..<n] s)"
  by simp

lemma fold_upt_invariant:
  assumes "P 0 s" and "\<And>k t. k < n \<Longrightarrow> P k t \<Longrightarrow> P (Suc k) (f k t)"
  shows "P n (fold f [0..<n] s)"
proof -
  have "m \<le> n \<Longrightarrow> P m (fold f [0..<m] s)" for m
  proof (induction m)
    case 0
    with assms(1) show ?case by simp
  next
    case (Suc m)
    then have "P m (fold f [0..<m] s)" and "m < n"
      by simp_all
    then have "P (Suc m) (f m (fold f [0..<m] s))"
      using assms(2) by blast
    then show ?case by simp
  qed
  then show ?thesis by simp
qed

lemma sdiv_nonneg: "0 \<le> t \<Longrightarrow> t sdiv 10 = t div 10" for t :: int
  by (simp add: signed_divide_int_def sgn_if)

lemma smod_nonneg: "0 \<le> t \<Longrightarrow> t smod 10 = t mod 10" for t :: int
  by (simp add: signed_modulo_int_def sgn_if)

section \<open>Addition\<close>

lemma carry_cancel:
  fixes t q r :: int
  assumes "t = 10 * q + r"
  shows "q * 10 ^ Suc k + (r - t) * 10 ^ k = 0"
  by (simp add: assms algebra_simps)

lemma add_step_inv:
  assumes ok: "digits_ok a" "digits_ok b" and len: "length a = n" "length b = n"
    and k: "k < n" and inv: "add_inv a b n k c"
  shows "add_inv a b n (Suc k) (add_step a b k c)"
proof -
  define t where "t = c ! k + (a ! k + b ! k)"
  have lc: "length c = Suc n" and ck: "0 \<le> c ! k" "c ! k \<le> 1"
    and hi: "c ! Suc k = 0"
    and dv: "digits_val c = digits_val (take k a) + digits_val (take k b)"
    using inv k by (simp_all add: add_inv_def)
  have ak: "0 \<le> a ! k" "a ! k \<le> 9" and bk: "0 \<le> b ! k" "b ! k \<le> 9"
    using ok len k digits_ok_nth [of a k] digits_ok_nth [of b k] by simp_all
  have t: "0 \<le> t" "t \<le> 19"
    using ck ak bk by (simp_all add: t_def)
  have step: "add_step a b k c = (c[k := t, Suc k := t div 10])[k := t mod 10]"
    using lc k t by (simp add: add_step_def t_def [symmetric] Let_def sdiv_nonneg smod_nonneg)
  have "digits_val (add_step a b k c) = digits_val c + (a ! k + b ! k) * 10 ^ k"
  proof -
    have "digits_val (c[k := t]) = digits_val c + (t - c ! k) * 10 ^ k"
      using lc k by (simp add: digits_val_update)
    moreover have "digits_val (c[k := t, Suc k := t div 10])
        = digits_val (c[k := t]) + (t div 10) * 10 ^ Suc k"
      using lc k hi by (simp add: digits_val_update)
    moreover have "digits_val ((c[k := t, Suc k := t div 10])[k := t mod 10])
        = digits_val (c[k := t, Suc k := t div 10]) + (t mod 10 - t) * 10 ^ k"
      using lc k by (simp add: digits_val_update)
    moreover have "(t div 10) * 10 ^ Suc k + (t mod 10 - t) * 10 ^ k = 0"
      by (rule carry_cancel) simp
    ultimately show ?thesis
      by (simp add: step t_def algebra_simps)
  qed
  then have v: "digits_val (add_step a b k c)
      = digits_val (take (Suc k) a) + digits_val (take (Suc k) b)"
    using dv len k by (simp add: digits_val_take_Suc algebra_simps)
  have lo: "\<forall>j<Suc k. 0 \<le> add_step a b k c ! j \<and> add_step a b k c ! j \<le> 9"
  proof (intro allI impI)
    fix j assume "j < Suc k"
    then consider "j < k" | "j = k" by linarith
    then show "0 \<le> add_step a b k c ! j \<and> add_step a b k c ! j \<le> 9"
    proof cases
      case 1
      with inv lc k show ?thesis
        by (simp add: step add_inv_def)
    next
      case 2
      have "0 \<le> t mod 10" "t mod 10 \<le> 9"
        by simp_all
      with 2 lc k show ?thesis
        by (simp add: step)
    qed
  qed
  have carry: "0 \<le> t div 10" "t div 10 \<le> 1"
    using t by simp_all
  have top: "0 \<le> add_step a b k c ! Suc k \<and> add_step a b k c ! Suc k \<le> 1"
    using carry lc k by (simp add: step)
  have rest: "\<forall>j. Suc k < j \<and> j \<le> n \<longrightarrow> add_step a b k c ! j = 0"
    using inv lc k by (simp add: step add_inv_def)
  show ?thesis
    unfolding add_inv_def
    using lc v lo top rest by (simp add: step)
qed

lemma add_loop_correct:
  assumes ok: "digits_ok a" "digits_ok b" and len: "length a = n" "length b = n"
  defines "c \<equiv> fold (add_step a b) [0..<n] (replicate (Suc n) 0)"
  shows "digits_val c = digits_val a + digits_val b" and "digits_ok c" and "length c = Suc n"
proof -
  have "add_inv a b n n c"
    unfolding c_def
  proof (rule fold_upt_invariant [where P = "add_inv a b n"])
    show "add_inv a b n 0 (replicate (Suc n) 0)"
      by (simp add: add_inv_def del: replicate_Suc)
  next
    fix k t
    assume "k < n" "add_inv a b n k t"
    with ok len show "add_inv a b n (Suc k) (add_step a b k t)"
      by (intro add_step_inv)
  qed
  then have inv: "length c = Suc n" "digits_val c = digits_val (take n a) + digits_val (take n b)"
    "\<forall>j<n. 0 \<le> c ! j \<and> c ! j \<le> 9" "0 \<le> c ! n" "c ! n \<le> 1"
    by (simp_all add: add_inv_def)
  from inv(2) len show "digits_val c = digits_val a + digits_val b"
    by simp
  show "length c = Suc n" by fact
  show "digits_ok c"
  proof (rule digits_okI)
    fix i assume "i < length c"
    then consider "i < n" | "i = n"
      using inv(1) by linarith
    then show "0 \<le> c ! i \<and> c ! i \<le> 9"
      using inv by cases auto
  qed
qed

lemma digits_ok_pad [simp]: "digits_ok (ds @ replicate m 0) \<longleftrightarrow> digits_ok ds"
  by simp

lemma digits_val_pad [simp]: "digits_val (ds @ replicate m 0) = digits_val ds"
  by (simp add: digits_val_append)

lemma add_vertical_correct:
  assumes "valid x" "valid y" "sign x = sign y" "sign x \<noteq> 0"
  shows "valid (add_vertical x y)" and "val (add_vertical x y) = val x + val y"
proof -
  define n where "n = max (length (digits x)) (length (digits y))"
  define a where "a = digits x @ replicate (n - length (digits x)) 0"
  define b where "b = digits y @ replicate (n - length (digits y)) 0"
  define c where "c = fold (add_step a b) [0..<n] (replicate (Suc n) 0)"
  have ok: "digits_ok a" "digits_ok b"
    using assms by (simp_all add: a_def b_def valid_digits_ok)
  have len: "length a = n" "length b = n"
    by (simp_all add: a_def b_def n_def)
  have c: "digits_val c = digits_val (digits x) + digits_val (digits y)" "digits_ok c"
    using add_loop_correct [OF ok len] by (simp_all add: c_def a_def b_def)
  have res: "add_vertical x y = \<lparr>digits = strip c, sign = sign x\<rparr>"
    by (simp add: add_vertical_def add_leading_zeros_def remove_leading_zeros_def strip_def
        Let_def n_def a_def b_def c_def)
  have pm: "sign x = 1 \<or> sign x = - 1"
    using assms valid_sign_cases [of x] by auto
  have "0 < digits_val (digits x)" "0 < digits_val (digits y)"
    using assms by (simp_all add: valid_digits_val_pos)
  then have "digits_val c \<noteq> 0"
    using c by simp
  then have ne: "strip c \<noteq> []"
    using c by (simp add: strip_eq_Nil_iff)
  with valid_normalised [OF c(2) pm] show "valid (add_vertical x y)"
    by (simp add: res)
  show "val (add_vertical x y) = val x + val y"
    using assms c by (simp add: res val_def algebra_simps)
qed

section \<open>Subtraction\<close>

lemma digit_shift_bound:
  fixes d v :: int
  assumes "0 \<le> d" "d \<le> 9" "0 \<le> v" "v < 10 ^ k"
  shows "0 \<le> v + d * 10 ^ k \<and> v + d * 10 ^ k < 10 ^ Suc k"
proof -
  have a: "d * 10 ^ k \<le> 9 * (10::int) ^ k"
    using assms by (intro mult_right_mono) simp_all
  have b: "0 \<le> d * (10::int) ^ k"
    using assms by simp
  have c: "(10::int) ^ Suc k = 10 * 10 ^ k"
    by simp
  from a b assms(3,4) show ?thesis
    unfolding c by linarith
qed

lemma sub_step_inv:
  assumes ok: "digits_ok a" "digits_ok b" and len: "length a = n" "length b = n"
    and ge: "digits_val b \<le> digits_val a"
    and k: "k < n" and inv: "sub_inv a b n k (a', c)"
  shows "sub_inv a b n (Suc k) (sub_step b k (a', c))"
proof -
  have la: "length a' = n" and lc: "length c = n"
    and dv: "digits_val c + (digits_val a' - digits_val (take k a'))
               = digits_val a - digits_val (take k b)"
    and cb: "0 \<le> digits_val c" "digits_val c < 10 ^ k"
    and clo: "\<forall>j<k. 0 \<le> c ! j \<and> c ! j \<le> 9"
    and chi: "\<forall>j. k \<le> j \<and> j < n \<longrightarrow> c ! j = 0"
    and ak: "- 1 \<le> a' ! k" "a' ! k \<le> 9"
    and ahi: "\<forall>j. k < j \<and> j < n \<longrightarrow> a' ! j = a ! j"
    using inv k by (simp_all add: sub_inv_def)
  have bk: "0 \<le> b ! k" "b ! k \<le> 9"
    using ok len k digits_ok_nth [of b k] by simp_all
  have ck: "c ! k = 0"
    using chi k by simp
  have tb: "digits_val (take (Suc k) b) = digits_val (take k b) + 10 ^ k * b ! k"
    using len k by (simp add: digits_val_take_Suc)
  have ta: "digits_val (take (Suc k) a') = digits_val (take k a') + 10 ^ k * a' ! k"
    using la k by (simp add: digits_val_take_Suc)
  show ?thesis
  proof (cases "a' ! k < b ! k")
    case False
    define d where "d = a' ! k - b ! k"
    have d: "0 \<le> d" "d \<le> 9"
      using False ak bk by (simp_all add: d_def)
    have step: "sub_step b k (a', c) = (a', c[k := d])"
      using False by (simp add: sub_step_def d_def)
    have v: "digits_val (c[k := d]) = digits_val c + d * 10 ^ k"
      using lc k ck by (simp add: digits_val_update)
    have b': "0 \<le> digits_val (c[k := d])" "digits_val (c[k := d]) < 10 ^ Suc k"
      using digit_shift_bound [OF d cb] v by simp_all
    have eq: "digits_val (c[k := d]) + (digits_val a' - digits_val (take (Suc k) a'))
               = digits_val a - digits_val (take (Suc k) b)"
      using dv v ta tb by (simp add: d_def algebra_simps)
    have next_a: "Suc k < n \<longrightarrow> - 1 \<le> a' ! Suc k \<and> a' ! Suc k \<le> 9"
      using ahi ok len digits_ok_nth [of a "Suc k"] by auto
    show ?thesis
      unfolding step sub_inv_def
      using la lc eq b' clo chi d next_a ahi k
      by (auto simp: nth_list_update less_Suc_eq)
  next
    case True
    have sk: "Suc k < n"
    proof (rule ccontr)
      assume "\<not> Suc k < n"
      with k have n: "n = Suc k" by simp
      then have "take (Suc k) a' = a'" "take (Suc k) b = b"
        using la len by simp_all
      with ta tb have "digits_val a' = digits_val (take k a') + 10 ^ k * a' ! k"
        and "digits_val b = digits_val (take k b) + 10 ^ k * b ! k"
        by simp_all
      with dv ge have "10 ^ k * b ! k \<le> digits_val c + 10 ^ k * a' ! k"
        by simp
      with power10_scale [OF True, of k] cb show False
        by simp
    qed
    define a1 where "a1 = a'[Suc k := a' ! Suc k - 1]"
    define a2 where "a2 = a1[k := a' ! k + 10]"
    define d where "d = a' ! k + 10 - b ! k"
    have d: "0 \<le> d" "d \<le> 9"
      using True ak bk by (simp_all add: d_def)
    have step: "sub_step b k (a', c) = (a2, c[k := d])"
      using True la sk by (simp add: sub_step_def d_def a1_def a2_def Let_def)
    have v: "digits_val (c[k := d]) = digits_val c + d * 10 ^ k"
      using lc k ck by (simp add: digits_val_update)
    have b': "0 \<le> digits_val (c[k := d])" "digits_val (c[k := d]) < 10 ^ Suc k"
      using digit_shift_bound [OF d cb] v by simp_all
    have va1: "digits_val a1 = digits_val a' - 10 ^ Suc k"
      using la sk by (simp add: a1_def digits_val_update)
    have va2: "digits_val a2 = digits_val a'"
      using la sk k va1 by (simp add: a2_def a1_def digits_val_update)
    have tk: "take k a2 = take k a'"
      by (simp add: a2_def a1_def)
    have a2k: "a2 ! k = a' ! k + 10"
      using la k by (simp add: a2_def a1_def)
    have la2: "length a2 = n"
      using la by (simp add: a2_def a1_def)
    have ta2: "digits_val (take (Suc k) a2) = digits_val (take k a') + 10 ^ k * (a' ! k + 10)"
      using la2 k tk a2k by (simp add: digits_val_take_Suc)
    have eq: "digits_val (c[k := d]) + (digits_val a2 - digits_val (take (Suc k) a2))
               = digits_val a - digits_val (take (Suc k) b)"
      using dv v ta2 tb va2 by (simp add: d_def algebra_simps)
    have "0 \<le> a ! Suc k" "a ! Suc k \<le> 9"
      using ok len sk digits_ok_nth [of a "Suc k"] by simp_all
    moreover have "a2 ! Suc k = a ! Suc k - 1"
      using la sk ahi by (simp add: a2_def a1_def)
    ultimately have next_a: "- 1 \<le> a2 ! Suc k \<and> a2 ! Suc k \<le> 9"
      by simp
    have ahi2: "\<forall>j. Suc k < j \<and> j < n \<longrightarrow> a2 ! j = a ! j"
      using ahi by (simp add: a2_def a1_def)
    show ?thesis
      unfolding step sub_inv_def
      using la2 lc eq b' clo chi d next_a ahi2 k
      by (auto simp: nth_list_update less_Suc_eq)
  qed
qed

lemma sub_loop_correct:
  assumes ok: "digits_ok a" "digits_ok b" and len: "length a = n" "length b = n"
    and ge: "digits_val b \<le> digits_val a"
  defines "c \<equiv> snd (fold (sub_step b) [0..<n] (a, replicate n 0))"
  shows "digits_val c = digits_val a - digits_val b" and "digits_ok c"
proof -
  have "sub_inv a b n n (fold (sub_step b) [0..<n] (a, replicate n 0))"
  proof (rule fold_upt_invariant [where P = "sub_inv a b n"])
    show "sub_inv a b n 0 (a, replicate n 0)"
      using ok len digits_ok_nth [of a 0] by (auto simp: sub_inv_def)
  next
    fix k t
    assume "k < n" "sub_inv a b n k t"
    with ok len ge show "sub_inv a b n (Suc k) (sub_step b k t)"
      by (cases t) (simp add: sub_step_inv)
  qed
  then obtain a' where f: "fold (sub_step b) [0..<n] (a, replicate n 0) = (a', c)"
    and inv: "sub_inv a b n n (a', c)"
    by (cases "fold (sub_step b) [0..<n] (a, replicate n 0)") (simp add: c_def)
  from inv have la: "length a' = n" and lc: "length c = n"
    and dv: "digits_val c + (digits_val a' - digits_val (take n a'))
               = digits_val a - digits_val (take n b)"
    and clo: "\<forall>j<n. 0 \<le> c ! j \<and> c ! j \<le> 9"
    by (auto simp: sub_inv_def)
  from dv la len show "digits_val c = digits_val a - digits_val b"
    by simp
  show "digits_ok c"
    using clo lc by (intro digits_okI) simp
qed

lemma sub_vertical_correct:
  assumes "valid x" "valid y" "sign x = sign y" "sign x \<noteq> 0"
  shows "valid (sub_vertical x y)" and "val (sub_vertical x y) = val x - val y"
proof -
  define n where "n = max (length (digits x)) (length (digits y))"
  define num1 where "num1 = add_leading_zeros x (n - length (digits x))"
  define num2 where "num2 = add_leading_zeros y (n - length (digits y))"
  define swap where "swap = (if sign x = 1 then operator_lt num1 num2 else operator_gt num1 num2)"
  define a where "a = (if swap then digits num2 else digits num1)"
  define b where "b = (if swap then digits num1 else digits num2)"
  define s where "s = (if swap then - sign x else sign x)"
  define c where "c = snd (fold (sub_step b) [0..<n] (a, replicate n 0))"
  have pm: "sign x = 1 \<or> sign x = - 1"
    using assms valid_sign_cases [of x] by auto
  have d1: "digits num1 = digits x @ replicate (n - length (digits x)) 0" "sign num1 = sign x"
    and d2: "digits num2 = digits y @ replicate (n - length (digits y)) 0" "sign num2 = sign x"
    using assms by (simp_all add: num1_def num2_def add_leading_zeros_def)
  have ok12: "digits_ok (digits num1)" "digits_ok (digits num2)"
    using assms by (simp_all add: d1 d2 valid_digits_ok)
  have len12: "length (digits num1) = n" "length (digits num2) = n"
    by (simp_all add: d1 d2 n_def)
  have v12: "digits_val (digits num1) = digits_val (digits x)"
    "digits_val (digits num2) = digits_val (digits y)"
    by (simp_all add: d1 d2)
  have cmp: "operator_cmp num1 num2 = cmp_spec (val num1) (val num2)"
    using ok12 len12 d1(2) d2(2) pm by (intro operator_cmp_same_length) simp_all
  have swap_iff: "swap \<longleftrightarrow> digits_val (digits x) < digits_val (digits y)"
    using pm cmp v12 d1(2) d2(2)
    by (auto simp: swap_def operator_lt_def operator_gt_def cmp_spec_def val_def)
  have ok: "digits_ok a" "digits_ok b" and len: "length a = n" "length b = n"
    using ok12 len12 by (simp_all add: a_def b_def)
  have ge: "digits_val b \<le> digits_val a"
    using swap_iff v12 by (simp add: a_def b_def)
  have c: "digits_val c = digits_val a - digits_val b" "digits_ok c"
    using sub_loop_correct [OF ok len ge] by (simp_all add: c_def)
  have res: "sub_vertical x y = \<lparr>digits = strip c, sign = (if strip c = [] then 0 else s)\<rparr>"
    by (simp add: sub_vertical_def Let_def n_def num1_def num2_def swap_def a_def b_def c_def
        s_def add_leading_zeros_def remove_leading_zeros_def strip_def)
  have spm: "s = 1 \<or> s = - 1"
    using pm by (auto simp: s_def)
  from valid_normalised [OF c(2) spm] show "valid (sub_vertical x y)"
    by (simp add: res)
  have "s * (digits_val a - digits_val b) = sign x * (digits_val (digits x) - digits_val (digits y))"
    using v12 by (simp add: s_def a_def b_def algebra_simps)
  then have e: "s * digits_val c = val x - val y"
    using assms(3) by (simp add: c(1) val_def algebra_simps)
  show "val (sub_vertical x y) = val x - val y"
  proof (cases "strip c = []")
    case True
    then have "digits_val c = 0"
      using c(2) by (simp add: strip_eq_Nil_iff)
    with e True show ?thesis
      by (simp add: res val_def)
  next
    case False
    with e show ?thesis
      by (simp add: res val_def)
  qed
qed

section \<open>The operators \<open>+\<close> and \<open>-\<close>\<close>

declare operator_plus.simps [simp del] operator_minus.simps [simp del]

lemma operator_neg_simps [simp]:
  "digits (operator_neg x) = digits x" "sign (operator_neg x) = - sign x"
  by (simp_all add: operator_neg_def)

lemma operator_neg_correct:
  "valid x \<Longrightarrow> valid (operator_neg x)" "val (operator_neg x) = - val x"
  by (auto simp: valid_alt val_def)

lemma int_abs_correct:
  assumes "valid x"
  shows "valid (int_abs x)" and "val (int_abs x) = \<bar>val x\<bar>"
    and "digits (int_abs x) = digits x"
proof -
  show "valid (int_abs x)"
    using assms by (simp add: int_abs_def operator_neg_correct)
  show "digits (int_abs x) = digits x"
    by (simp add: int_abs_def)
  have "sgn (val x) = sign x"
    using assms by (rule val_sign)
  then show "val (int_abs x) = \<bar>val x\<bar>"
    using valid_sign_cases [OF assms]
    by (auto simp: int_abs_def operator_neg_correct sgn_if split: if_splits)
qed

lemma operator_plus_minus_correct:
  assumes x: "valid x" and y: "valid y"
  shows "valid (operator_plus x y) \<and> val (operator_plus x y) = val x + val y
       \<and> valid (operator_minus x y) \<and> val (operator_minus x y) = val x - val y"
proof -
  have ny: "valid (operator_neg y)" and nx: "valid (operator_neg x)"
    using x y by (simp_all add: operator_neg_correct)
  have zx: "sign x = 0 \<Longrightarrow> val x = 0" and zy: "sign y = 0 \<Longrightarrow> val y = 0"
    by (simp_all add: val_def)
  consider "sign x = 0 \<or> sign y = 0"
    | "sign x = 1" "sign y = 1" | "sign x = - 1" "sign y = - 1"
    | "sign x = 1" "sign y = - 1" | "sign x = - 1" "sign y = 1"
    using valid_sign_cases [OF x] valid_sign_cases [OF y] by auto
  then show ?thesis
  proof cases
    case 1
    then show ?thesis
      using x y ny zx zy
      by (auto simp: operator_plus.simps operator_minus.simps operator_neg_correct)
  next
    case 2
    then have "operator_plus x y = add_vertical x y" "operator_minus x y = sub_vertical x y"
      by (simp_all add: operator_plus.simps operator_minus.simps)
    with 2 x y show ?thesis
      by (simp add: add_vertical_correct sub_vertical_correct)
  next
    case 3
    then have "operator_plus x y = add_vertical x y" "operator_minus x y = sub_vertical x y"
      by (simp_all add: operator_plus.simps operator_minus.simps)
    with 3 x y show ?thesis
      by (simp add: add_vertical_correct sub_vertical_correct)
  next
    case 4
    then have "operator_plus x y = sub_vertical x (operator_neg y)"
      "operator_minus x y = add_vertical x (operator_neg y)"
      by (simp_all add: operator_plus.simps operator_minus.simps)
    with 4 x ny show ?thesis
      by (simp add: add_vertical_correct sub_vertical_correct operator_neg_correct)
  next
    case 5
    then have "operator_plus x y = sub_vertical y (operator_neg x)"
      "operator_minus x y = add_vertical x (operator_neg y)"
      by (simp_all add: operator_plus.simps operator_minus.simps)
    with 5 x y nx ny show ?thesis
      by (simp add: add_vertical_correct sub_vertical_correct operator_neg_correct)
  qed
qed

lemma operator_plus_correct:
  "valid x \<Longrightarrow> valid y \<Longrightarrow> valid (operator_plus x y)"
  "valid x \<Longrightarrow> valid y \<Longrightarrow> val (operator_plus x y) = val x + val y"
  using operator_plus_minus_correct [of x y] by simp_all

lemma operator_minus_correct:
  "valid x \<Longrightarrow> valid y \<Longrightarrow> valid (operator_minus x y)"
  "valid x \<Longrightarrow> valid y \<Longrightarrow> val (operator_minus x y) = val x - val y"
  using operator_plus_minus_correct [of x y] by simp_all

section \<open>Multiplication\<close>

lemma mul_step_inv:
  assumes ok: "digits_ok a" "digits_ok b" and i: "i < length a" and j: "j < length b"
    and inv: "mul_inner_inv a b i j c"
  shows "mul_inner_inv a b i (Suc j) (mul_step a b i j c)"
proof -
  define k where "k = i + j"
  define t where "t = c ! k + a ! i * b ! j"
  define u where "u = c ! Suc k + t div 10"
  have lc: "length c = length a + length b"
    and dv: "digits_val c = digits_val (take i a) * digits_val b
                      + a ! i * 10 ^ i * digits_val (take j b)"
    and oth: "\<forall>p < length a + length b. p \<noteq> k \<longrightarrow> 0 \<le> c ! p \<and> c ! p \<le> 9"
    and ck: "0 \<le> c ! k" "c ! k \<le> 18"
    and zs: "\<forall>p. i + length b \<le> p \<and> k < p \<and> p < length a + length b \<longrightarrow> c ! p = 0"
    using inv by (simp_all add: mul_inner_inv_def k_def)
  have kl: "Suc k < length c"
    using i j lc by (simp add: k_def)
  have ai: "0 \<le> a ! i" "a ! i \<le> 9" and bj: "0 \<le> b ! j" "b ! j \<le> 9"
    using ok i j digits_ok_nth [of a i] digits_ok_nth [of b j] by simp_all
  have p0: "0 \<le> a ! i * b ! j"
    using ai bj by simp
  have p81: "a ! i * b ! j \<le> 9 * 9"
    using ai bj by (intro mult_mono) simp_all
  have t: "0 \<le> t" "t \<le> 99"
    using ck p0 p81 by (simp_all add: t_def)
  have carry: "0 \<le> t div 10" "t div 10 \<le> 9"
    using t by simp_all
  have cs: "0 \<le> c ! Suc k" "c ! Suc k \<le> 9"
    using oth kl lc by simp_all
  have u: "0 \<le> u" "u \<le> 18"
    using carry cs by (simp_all add: u_def)
  have step: "mul_step a b i j c = (c[k := t, Suc k := u])[k := t mod 10]"
    using kl t
    by (simp add: mul_step_def k_def [symmetric] t_def [symmetric] u_def Let_def
        sdiv_nonneg smod_nonneg)
  have len': "length (mul_step a b i j c) = length a + length b"
    using lc by (simp add: step)
  have "digits_val (mul_step a b i j c) = digits_val c + a ! i * b ! j * 10 ^ k"
  proof -
    have "digits_val (c[k := t]) = digits_val c + (t - c ! k) * 10 ^ k"
      using kl by (simp add: digits_val_update)
    moreover have "digits_val (c[k := t, Suc k := u])
        = digits_val (c[k := t]) + (t div 10) * 10 ^ Suc k"
      using kl by (simp add: digits_val_update u_def)
    moreover have "digits_val ((c[k := t, Suc k := u])[k := t mod 10])
        = digits_val (c[k := t, Suc k := u]) + (t mod 10 - t) * 10 ^ k"
      using kl by (simp add: digits_val_update)
    moreover have "(t div 10) * 10 ^ Suc k + (t mod 10 - t) * 10 ^ k = 0"
      by (rule carry_cancel) simp
    ultimately show ?thesis
      by (simp add: step t_def algebra_simps)
  qed
  moreover have "digits_val (take (Suc j) b) = digits_val (take j b) + 10 ^ j * b ! j"
    using j by (simp add: digits_val_take_Suc)
  ultimately have v: "digits_val (mul_step a b i j c)
      = digits_val (take i a) * digits_val b + a ! i * 10 ^ i * digits_val (take (Suc j) b)"
    using dv by (simp add: k_def power_add algebra_simps)
  have nth_k: "mul_step a b i j c ! k = t mod 10"
    using kl by (simp add: step)
  have nth_Sk: "mul_step a b i j c ! Suc k = u"
    using kl by (simp add: step)
  have nth_oth: "p \<noteq> k \<Longrightarrow> p \<noteq> Suc k \<Longrightarrow> mul_step a b i j c ! p = c ! p" for p
    by (simp add: step)
  have m: "0 \<le> t mod 10" "t mod 10 \<le> 9"
    by simp_all
  have others: "\<forall>p < length a + length b. p \<noteq> i + Suc j \<longrightarrow>
      0 \<le> mul_step a b i j c ! p \<and> mul_step a b i j c ! p \<le> 9"
  proof (intro allI impI)
    fix p assume p: "p < length a + length b" "p \<noteq> i + Suc j"
    show "0 \<le> mul_step a b i j c ! p \<and> mul_step a b i j c ! p \<le> 9"
    proof (cases "p = k")
      case True
      with m nth_k show ?thesis by simp
    next
      case False
      with p have "mul_step a b i j c ! p = c ! p"
        by (intro nth_oth) (simp_all add: k_def)
      with False p oth show ?thesis by simp
    qed
  qed
  have top: "Suc j = length b \<longrightarrow> u \<le> 9"
  proof
    assume "Suc j = length b"
    then have "c ! Suc k = 0"
      using zs kl lc by (simp add: k_def)
    with carry show "u \<le> 9"
      by (simp add: u_def)
  qed
  have zeros: "\<forall>p. i + length b \<le> p \<and> i + Suc j < p \<and> p < length a + length b
      \<longrightarrow> mul_step a b i j c ! p = 0"
  proof (intro allI impI)
    fix p assume p: "i + length b \<le> p \<and> i + Suc j < p \<and> p < length a + length b"
    then have "mul_step a b i j c ! p = c ! p"
      by (intro nth_oth) (simp_all add: k_def)
    with p zs show "mul_step a b i j c ! p = 0"
      by (simp add: k_def)
  qed
  have ik: "i + Suc j = Suc k"
    by (simp add: k_def)
  show ?thesis
    unfolding mul_inner_inv_def ik
  proof (intro conjI)
    show "length (mul_step a b i j c) = length a + length b"
      by (rule len')
    show "digits_val (mul_step a b i j c)
      = digits_val (take i a) * digits_val b + a ! i * 10 ^ i * digits_val (take (Suc j) b)"
      by (rule v)
    show "\<forall>p<length a + length b. p \<noteq> Suc k \<longrightarrow>
        0 \<le> mul_step a b i j c ! p \<and> mul_step a b i j c ! p \<le> 9"
      using others unfolding ik .
    show "0 \<le> mul_step a b i j c ! Suc k" "mul_step a b i j c ! Suc k \<le> 18"
      using u nth_Sk by simp_all
    show "Suc j = length b \<longrightarrow> mul_step a b i j c ! Suc k \<le> 9"
      using top nth_Sk by simp
    show "\<forall>p. i + length b \<le> p \<and> Suc k < p \<and> p < length a + length b
        \<longrightarrow> mul_step a b i j c ! p = 0"
      using zeros unfolding ik .
  qed
qed

lemma mul_row_inv:
  assumes ok: "digits_ok a" "digits_ok b" and i: "i < length a"
    and inv: "mul_outer_inv a b i c"
  shows "mul_outer_inv a b (Suc i) (fold (mul_step a b i) [0..<length b] c)"
proof -
  define c' where "c' = fold (mul_step a b i) [0..<length b] c"
  have lc: "length c = length a + length b"
    and dv: "digits_val c = digits_val (take i a) * digits_val b"
    and okc: "digits_ok c"
    and zs: "\<forall>p. i + length b \<le> p \<and> p < length a + length b \<longrightarrow> c ! p = 0"
    using inv by (simp_all add: mul_outer_inv_def)
  have "mul_inner_inv a b i (length b) c'"
    unfolding c'_def
  proof (rule fold_upt_invariant [where P = "mul_inner_inv a b i"])
    have "0 \<le> c ! p \<and> c ! p \<le> 9" if "p < length a + length b" for p
      using okc lc that digits_ok_nth [of c p] by simp
    moreover have "0 \<le> c ! i" "c ! i \<le> 18" "c ! i \<le> 9"
      using okc lc i digits_ok_nth [of c i] by simp_all
    ultimately show "mul_inner_inv a b i 0 c"
      using lc dv zs by (simp add: mul_inner_inv_def)
  next
    fix j t
    assume "j < length b" "mul_inner_inv a b i j t"
    with ok i show "mul_inner_inv a b i (Suc j) (mul_step a b i j t)"
      by (intro mul_step_inv)
  qed
  then have lc': "length c' = length a + length b"
    and dv': "digits_val c' = digits_val (take i a) * digits_val b + a ! i * 10 ^ i * digits_val b"
    and oth: "\<forall>p < length a + length b. p \<noteq> i + length b \<longrightarrow> 0 \<le> c' ! p \<and> c' ! p \<le> 9"
    and top: "0 \<le> c' ! (i + length b)" "c' ! (i + length b) \<le> 9"
    and zs': "\<forall>p. i + length b < p \<and> p < length a + length b \<longrightarrow> c' ! p = 0"
    by (auto simp: mul_inner_inv_def)
  have "digits_ok c'"
  proof (rule digits_okI)
    fix p assume "p < length c'"
    then show "0 \<le> c' ! p \<and> c' ! p \<le> 9"
      using lc' oth top by (cases "p = i + length b") simp_all
  qed
  moreover have "digits_val c' = digits_val (take (Suc i) a) * digits_val b"
    using dv' i by (simp add: digits_val_take_Suc algebra_simps)
  ultimately show ?thesis
    unfolding mul_outer_inv_def c'_def [symmetric]
    using lc' zs' by simp
qed

lemma mul_loop_correct:
  assumes ok: "digits_ok a" "digits_ok b"
  defines "c \<equiv> fold (\<lambda>i. fold (mul_step a b i) [0..<length b]) [0..<length a]
                  (replicate (length a + length b) 0)"
  shows "digits_val c = digits_val a * digits_val b" and "digits_ok c"
proof -
  have "mul_outer_inv a b (length a) c"
    unfolding c_def
  proof (rule fold_upt_invariant [where P = "mul_outer_inv a b"])
    show "mul_outer_inv a b 0 (replicate (length a + length b) 0)"
      by (simp add: mul_outer_inv_def)
  next
    fix i t
    assume "i < length a" "mul_outer_inv a b i t"
    with ok show "mul_outer_inv a b (Suc i) (fold (mul_step a b i) [0..<length b] t)"
      by (intro mul_row_inv)
  qed
  then show "digits_val c = digits_val a * digits_val b" and "digits_ok c"
    by (simp_all add: mul_outer_inv_def)
qed

lemma Int_int_0 [simp]: "Int_int 0 = Int_default"
  by (simp add: Int_int_def)

lemma operator_times_correct:
  assumes "valid x" "valid y"
  shows "valid (operator_times x y)" and "val (operator_times x y) = val x * val y"
proof -
  show "valid (operator_times x y)"
  proof (cases "sign x = 0 \<or> sign y = 0")
    case True
    then show ?thesis by (simp add: operator_times_def)
  next
    case False
    define c where "c = fold (\<lambda>i. fold (mul_step (digits x) (digits y) i) [0..<length (digits y)])
        [0..<length (digits x)] (replicate (length (digits x) + length (digits y)) 0)"
    define s :: int where "s = (if sign x = sign y then 1 else - 1)"
    have c: "digits_val c = digits_val (digits x) * digits_val (digits y)" "digits_ok c"
      using mul_loop_correct [of "digits x" "digits y"] assms
      by (simp_all add: c_def valid_digits_ok)
    have res: "operator_times x y = \<lparr>digits = strip c, sign = s\<rparr>"
      using False
      by (simp add: operator_times_def Let_def add_leading_zeros_def remove_leading_zeros_def
          strip_def c_def s_def)
    have "0 < digits_val (digits x)" "0 < digits_val (digits y)"
      using assms False by (simp_all add: valid_digits_val_pos)
    then have "digits_val c \<noteq> 0"
      using c by simp
    then have ne: "strip c \<noteq> []"
      using c by (simp add: strip_eq_Nil_iff)
    have "s = 1 \<or> s = - 1"
      by (simp add: s_def)
    from valid_normalised [OF c(2) this] ne show ?thesis
      by (simp add: res)
  qed
  show "val (operator_times x y) = val x * val y"
  proof (cases "sign x = 0 \<or> sign y = 0")
    case True
    then have "val x = 0 \<or> val y = 0"
      by (auto simp: val_def)
    with True show ?thesis
      by (auto simp: operator_times_def)
  next
    case False
    define c where "c = fold (\<lambda>i. fold (mul_step (digits x) (digits y) i) [0..<length (digits y)])
        [0..<length (digits x)] (replicate (length (digits x) + length (digits y)) 0)"
    define s :: int where "s = (if sign x = sign y then 1 else - 1)"
    have c: "digits_val c = digits_val (digits x) * digits_val (digits y)" "digits_ok c"
      using mul_loop_correct [of "digits x" "digits y"] assms
      by (simp_all add: c_def valid_digits_ok)
    have res: "operator_times x y = \<lparr>digits = strip c, sign = s\<rparr>"
      using False
      by (simp add: operator_times_def Let_def add_leading_zeros_def remove_leading_zeros_def
          strip_def c_def s_def)
    have "s = sign x * sign y"
      using False valid_sign_cases [OF assms(1)] valid_sign_cases [OF assms(2)]
      by (auto simp: s_def)
    then show ?thesis
      using c by (simp add: res val_def algebra_simps)
  qed
qed

section \<open>Division and remainder\<close>

lemma digits_val_shift [simp]: "digits_val (replicate i 0 @ ds) = 10 ^ i * digits_val ds"
  by (simp add: digits_val_append)

lemma shifted_correct:
  assumes "valid y" "sign y \<noteq> 0"
  shows "valid (shifted y i)" and "val (shifted y i) = 10 ^ i * \<bar>val y\<bar>"
    and "0 < val (shifted y i)"
proof -
  have ne: "digits y \<noteq> []" and l: "last (digits y) \<noteq> 0" and ok: "digits_ok (digits y)"
    using assms by (auto simp: valid_alt)
  show "valid (shifted y i)"
    using ne l ok by (simp add: valid_alt shifted_def)
  show v: "val (shifted y i) = 10 ^ i * \<bar>val y\<bar>"
    using assms by (simp add: shifted_def val_def [of "\<lparr>digits = _, sign = _\<rparr>"] val_abs)
  have "0 < \<bar>val y\<bar>"
    using assms valid_digits_val_pos [of y] by (simp add: val_abs)
  then show "0 < val (shifted y i)"
    unfolding v by simp
qed

lemma shifted_tl: "(shifted y (Suc i))\<lparr>digits := tl (digits (shifted y (Suc i)))\<rparr> = shifted y i"
  by (simp add: shifted_def)

lemma div_inner_correct:
  assumes tmp: "valid tmp" "0 < val tmp"
  shows "valid num1 \<Longrightarrow> 0 \<le> val num1 \<Longrightarrow> i < length (digits result) \<Longrightarrow>
    \<exists>r. div_inner i tmp result num1
          = Some (result\<lparr>digits := (digits result)[i := digits result ! i + val num1 div val tmp]\<rparr>, r)
        \<and> valid r \<and> val r = val num1 mod val tmp"
proof (induction "nat (val num1)" arbitrary: num1 result rule: less_induct)
  case less
  show ?case
  proof (cases "val tmp \<le> val num1")
    case False
    then have "\<not> operator_ge num1 tmp"
      using less.prems tmp by (simp add: operator_ge_valid)
    then have "div_inner i tmp result num1 = Some (result, num1)"
      by (subst div_inner.simps) simp
    moreover have "val num1 div val tmp = 0" "val num1 mod val tmp = val num1"
      using False less.prems by simp_all
    ultimately show ?thesis
      using less.prems by simp
  next
    case True
    define num2 where "num2 = operator_minus num1 tmp"
    define result2 where "result2 = result\<lparr>digits := (digits result)[i := digits result ! i + 1]\<rparr>"
    have v2: "valid num2" "val num2 = val num1 - val tmp"
      using less.prems tmp by (simp_all add: num2_def operator_minus_correct)
    have "operator_ge num1 tmp"
      using True less.prems tmp by (simp add: operator_ge_valid)
    then have unfold: "div_inner i tmp result num1 = div_inner i tmp result2 num2"
      by (subst div_inner.simps) (simp add: num2_def result2_def)
    have "nat (val num2) < nat (val num1)" "0 \<le> val num2" "i < length (digits result2)"
      using v2 True tmp less.prems by (simp_all add: result2_def)
    with less.hyps [of num2 result2] v2 obtain r where
      r: "div_inner i tmp result2 num2
          = Some (result2\<lparr>digits := (digits result2)[i := digits result2 ! i + val num2 div val tmp]\<rparr>, r)"
        "valid r" "val r = val num2 mod val tmp"
      by blast
    have q: "val num1 div val tmp = val num2 div val tmp + 1"
      and m: "val num1 mod val tmp = val num2 mod val tmp"
      using True tmp div_pos_geq [of "val tmp" "val num1"] mod_pos_geq [of "val tmp" "val num1"]
      unfolding v2 by blast+
    have "result2\<lparr>digits := (digits result2)[i := digits result2 ! i + val num2 div val tmp]\<rparr>
        = result\<lparr>digits := (digits result)[i := digits result ! i + val num1 div val tmp]\<rparr>"
      using less.prems q by (simp add: result2_def algebra_simps)
    with r unfold m show ?thesis
      by simp
  qed
qed

lemma mod_inner_correct:
  assumes tmp: "valid tmp" "0 < val tmp"
  shows "valid result \<Longrightarrow> 0 \<le> val result \<Longrightarrow>
    \<exists>r. mod_inner tmp result = Some r \<and> valid r \<and> val r = val result mod val tmp"
proof (induction "nat (val result)" arbitrary: result rule: less_induct)
  case less
  show ?case
  proof (cases "val tmp \<le> val result")
    case False
    then have "\<not> operator_ge result tmp"
      using less.prems tmp by (simp add: operator_ge_valid)
    then have "mod_inner tmp result = Some result"
      by (subst mod_inner.simps) simp
    moreover have "val result mod val tmp = val result"
      using False less.prems by simp
    ultimately show ?thesis
      using less.prems by simp
  next
    case True
    define result2 where "result2 = operator_minus result tmp"
    have v2: "valid result2" "val result2 = val result - val tmp"
      using less.prems tmp by (simp_all add: result2_def operator_minus_correct)
    have "operator_ge result tmp"
      using True less.prems tmp by (simp add: operator_ge_valid)
    then have unfold: "mod_inner tmp result = mod_inner tmp result2"
      by (subst mod_inner.simps) (simp add: result2_def)
    have "nat (val result2) < nat (val result)" "0 \<le> val result2"
      using v2 True tmp less.prems by simp_all
    with less.hyps [of result2] v2 obtain r where
      r: "mod_inner tmp result2 = Some r" "valid r" "val r = val result2 mod val tmp"
      by blast
    have m: "val result mod val tmp = val result2 mod val tmp"
      using True tmp mod_pos_geq [of "val tmp" "val result"]
      unfolding v2 by blast
    with r unfold show ?thesis
      by simp
  qed
qed

lemma div_digit_bound:
  fixes N T :: int
  assumes "0 \<le> N" "0 < T" "N < 10 * T"
  shows "0 \<le> N div T" and "N div T \<le> 9"
proof -
  show "0 \<le> N div T"
    using assms by (simp add: pos_imp_zdiv_nonneg_iff)
  have "T * (N div T) + N mod T = N"
    by simp
  moreover have "0 \<le> N mod T"
    using assms by simp
  ultimately have le: "T * (N div T) \<le> N"
    by linarith
  show "N div T \<le> 9"
  proof (rule ccontr)
    assume "\<not> N div T \<le> 9"
    then have "10 \<le> N div T" by simp
    then have "T * 10 \<le> T * (N div T)"
      using assms by (intro mult_left_mono) simp_all
    with le assms show False by simp
  qed
qed

lemma split_div_mod:
  fixes N Y P :: int
  assumes "Y \<noteq> 0"
  shows "N div Y = N div (P * Y) * P + N mod (P * Y) div Y"
    and "N mod (P * Y) mod Y = N mod Y"
proof -
  define q where "q = N div (P * Y)"
  define r where "r = N mod (P * Y)"
  have "N = (P * Y) * q + r"
    unfolding q_def r_def by (rule mult_div_mod_eq [symmetric])
  then have N: "N = r + (q * P) * Y"
    by (simp add: mult_ac)
  have "N div Y = q * P + r div Y"
    by (subst N) (rule div_mult_self1 [OF assms])
  then show "N div Y = N div (P * Y) * P + N mod (P * Y) div Y"
    unfolding q_def r_def .
  have "N mod Y = r mod Y"
    by (subst N) (rule mod_mult_self1)
  then show "N mod (P * Y) mod Y = N mod Y"
    unfolding q_def r_def by simp
qed

lemma update_digits_twice [simp]:
  "r\<lparr>digits := ds\<rparr>\<lparr>digits := ds'\<rparr> = r\<lparr>digits := ds'\<rparr>" for r :: Int_t
  by simp

lemma div_loop_correct:
  assumes y: "valid y" "sign y \<noteq> 0"
  shows "valid num1 \<Longrightarrow> 0 \<le> val num1 \<Longrightarrow> val num1 < 10 ^ n * \<bar>val y\<bar> \<Longrightarrow>
    n \<le> length (digits result) \<Longrightarrow> (\<forall>p<n. digits result ! p = 0) \<Longrightarrow>
    \<exists>ds r. div_loop n (shifted y n) result num1 = Some (result\<lparr>digits := ds\<rparr>, r)
      \<and> valid r \<and> val r = val num1 mod \<bar>val y\<bar>
      \<and> length ds = length (digits result)
      \<and> digits_val ds = digits_val (digits result) + val num1 div \<bar>val y\<bar>
      \<and> (\<forall>p<n. 0 \<le> ds ! p \<and> ds ! p \<le> 9)
      \<and> (\<forall>p. n \<le> p \<and> p < length ds \<longrightarrow> ds ! p = digits result ! p)"
proof (induction n arbitrary: result num1)
  case 0
  then have "val num1 div \<bar>val y\<bar> = 0" "val num1 mod \<bar>val y\<bar> = val num1"
    by simp_all
  with 0 show ?case
    by (intro exI [of _ "digits result"] exI [of _ num1]) simp
next
  case (Suc n)
  define Y where "Y = \<bar>val y\<bar>"
  define T where "T = 10 ^ n * Y"
  define q where "q = val num1 div T"
  define ds1 where "ds1 = (digits result)[n := q]"
  define result1 where "result1 = result\<lparr>digits := ds1\<rparr>"
  have Ypos: "0 < Y"
    using shifted_correct(3) [OF y, of 0] shifted_correct(2) [OF y, of 0] by (simp add: Y_def)
  have tmp: "valid (shifted y n)" "val (shifted y n) = T" "0 < T"
    using shifted_correct [OF y, of n] by (simp_all add: T_def Y_def)
  have n: "n < length (digits result)" and zn: "digits result ! n = 0"
    using Suc.prems by simp_all
  have lt: "val num1 < 10 * T"
    using Suc.prems by (simp add: T_def Y_def algebra_simps)
  have q: "0 \<le> q" "q \<le> 9"
    using div_digit_bound [OF Suc.prems(2) tmp(3) lt] by (simp_all add: q_def)
  obtain r1 where inner: "div_inner n (shifted y n) result num1 = Some (result1, r1)"
    and r1: "valid r1" "val r1 = val num1 mod T"
    using div_inner_correct [OF tmp(1), of num1 n result] tmp Suc.prems n zn
    by (auto simp: result1_def ds1_def q_def)
  have r1b: "0 \<le> val r1" "val r1 < 10 ^ n * \<bar>val y\<bar>"
    using r1 tmp(3) by (simp_all add: T_def Y_def)
  have pre: "n \<le> length (digits result1)" "\<forall>p<n. digits result1 ! p = 0"
    using Suc.prems n by (simp_all add: result1_def ds1_def)
  from Suc.IH [OF r1(1) r1b pre] obtain ds r where
    loop: "div_loop n (shifted y n) result1 r1 = Some (result1\<lparr>digits := ds\<rparr>, r)"
    and r: "valid r" "val r = val r1 mod Y"
    and len: "length ds = length (digits result1)"
    and dv: "digits_val ds = digits_val (digits result1) + val r1 div Y"
    and lo: "\<forall>p<n. 0 \<le> ds ! p \<and> ds ! p \<le> 9"
    and hi: "\<forall>p. n \<le> p \<and> p < length ds \<longrightarrow> ds ! p = digits result1 ! p"
    unfolding Y_def by blast
  have step: "div_loop (Suc n) (shifted y (Suc n)) result num1 = Some (result\<lparr>digits := ds\<rparr>, r)"
    using inner loop by (simp add: shifted_tl result1_def)
  have Yn: "Y \<noteq> 0"
    using Ypos by simp
  have vr: "val r = val num1 mod Y"
    using r(2) r1(2) split_div_mod(2) [OF Yn, of "val num1" "10 ^ n"] by (simp add: T_def)
  have len': "length ds = length (digits result)"
    using len by (simp add: result1_def ds1_def)
  have "digits_val ds1 = digits_val (digits result) + q * 10 ^ n"
    using n zn by (simp add: ds1_def digits_val_update)
  then have dv': "digits_val ds = digits_val (digits result) + val num1 div Y"
    using dv r1(2) split_div_mod(1) [OF Yn, of "val num1" "10 ^ n"]
    by (simp add: result1_def q_def T_def)
  have dsn: "ds ! n = q"
    using hi n len' by (simp add: result1_def ds1_def)
  have lo': "\<forall>p<Suc n. 0 \<le> ds ! p \<and> ds ! p \<le> 9"
    using lo q dsn by (auto simp: less_Suc_eq)
  have hi': "\<forall>p. Suc n \<le> p \<and> p < length ds \<longrightarrow> ds ! p = digits result ! p"
    using hi by (auto simp: result1_def ds1_def)
  show ?case
    using step r(1) vr len' dv' lo' hi' unfolding Y_def by blast
qed

lemma mod_loop_correct:
  assumes y: "valid y" "sign y \<noteq> 0"
  shows "valid result \<Longrightarrow> 0 \<le> val result \<Longrightarrow> val result < 10 ^ n * \<bar>val y\<bar> \<Longrightarrow>
    \<exists>r. mod_loop n (shifted y n) result = Some r \<and> valid r \<and> val r = val result mod \<bar>val y\<bar>"
proof (induction n arbitrary: result)
  case 0
  then have "val result mod \<bar>val y\<bar> = val result"
    by simp
  with 0 show ?case
    by simp
next
  case (Suc n)
  define Y where "Y = \<bar>val y\<bar>"
  define T where "T = 10 ^ n * Y"
  have Ypos: "0 < Y"
    using shifted_correct(3) [OF y, of 0] shifted_correct(2) [OF y, of 0] by (simp add: Y_def)
  have tmp: "valid (shifted y n)" "val (shifted y n) = T" "0 < T"
    using shifted_correct [OF y, of n] by (simp_all add: T_def Y_def)
  obtain r1 where inner: "mod_inner (shifted y n) result = Some r1"
    and r1: "valid r1" "val r1 = val result mod T"
    using mod_inner_correct [OF tmp(1), of result] tmp Suc.prems by auto
  have r1b: "0 \<le> val r1" "val r1 < 10 ^ n * \<bar>val y\<bar>"
    using r1 tmp(3) by (simp_all add: T_def Y_def)
  from Suc.IH [OF r1(1) r1b] obtain r where
    loop: "mod_loop n (shifted y n) r1 = Some r" and r: "valid r" "val r = val r1 mod Y"
    unfolding Y_def by blast
  have step: "mod_loop (Suc n) (shifted y (Suc n)) result = Some r"
    using inner loop by (simp add: shifted_tl)
  have Yn: "Y \<noteq> 0"
    using Ypos by simp
  have vr: "val r = val result mod Y"
    using r(2) r1(2) split_div_mod(2) [OF Yn, of "val result" "10 ^ n"] by (simp add: T_def)
  show ?case
    using step r(1) vr unfolding Y_def by blast
qed

text \<open>The state in which the loop of \<open>operator/\<close> and that of \<open>operator%\<close> start.\<close>

lemma abs_below_shifted:
  assumes "valid x" "valid y" "sign y \<noteq> 0" "length (digits y) \<le> length (digits x)"
  shows "\<bar>val x\<bar> < 10 ^ (length (digits x) - length (digits y) + 1) * \<bar>val y\<bar>"
proof -
  have ne: "digits y \<noteq> []" and l: "last (digits y) \<noteq> 0" and ok: "digits_ok (digits y)"
    using assms by (auto simp: valid_alt)
  have "\<bar>val x\<bar> < 10 ^ length (digits x)"
    using assms by (simp add: val_abs digits_val_upper valid_digits_ok)
  moreover have "(10::int) ^ (length (digits y) - 1) \<le> \<bar>val y\<bar>"
    using digits_val_lower [OF ok ne l] assms by (simp add: val_abs)
  then have "(10::int) ^ (length (digits x) - length (digits y) + 1) * 10 ^ (length (digits y) - 1)
      \<le> 10 ^ (length (digits x) - length (digits y) + 1) * \<bar>val y\<bar>"
    by (intro mult_left_mono) simp_all
  moreover have "length (digits x) - length (digits y) + 1 + (length (digits y) - 1) = length (digits x)"
    using assms ne by (cases "digits y") simp_all
  then have "(10::int) ^ (length (digits x) - length (digits y) + 1) * 10 ^ (length (digits y) - 1)
      = 10 ^ length (digits x)"
    by (simp add: power_add [symmetric] del: power_Suc)
  ultimately show ?thesis
    by linarith
qed

lemma abs_below_longer:
  assumes "valid x" "valid y" "length (digits x) < length (digits y)"
  shows "\<bar>val x\<bar> < \<bar>val y\<bar>"
proof -
  have ne: "digits y \<noteq> []"
    using assms by auto
  then have "last (digits y) \<noteq> 0"
    using assms by (simp add: valid_alt)
  then have "digits_val (digits x) < digits_val (digits y)"
    using assms by (intro digits_val_length_mono) (auto simp: valid_alt)
  then show ?thesis
    using assms by (simp add: val_abs)
qed

lemma sdiv_eq: "a sdiv b = sgn a * sgn b * (\<bar>a\<bar> div \<bar>b\<bar>)" for a b :: int
  by (simp add: signed_divide_int_def)

lemma smod_eq: "a smod b = sgn a * (\<bar>a\<bar> mod \<bar>b\<bar>)" for a b :: int
  by (simp add: signed_modulo_int_def)

lemma operator_div_correct:
  assumes x: "valid x" and y: "valid y" "sign y \<noteq> 0"
  shows "\<exists>q. operator_div x y = Some (Inr q) \<and> valid q \<and> val q = val x sdiv val y"
proof (cases "length (digits x) < length (digits y)")
  case True
  then have "\<bar>val x\<bar> div \<bar>val y\<bar> = 0"
    using abs_below_longer [OF x y(1)] by simp
  with True y show ?thesis
    by (simp add: operator_div_def sdiv_eq)
next
  case False
  define n where "n = length (digits x) - length (digits y) + 1"
  define s :: int where "s = (if sign x = sign y then 1 else - 1)"
  define result where "result = \<lparr>digits = replicate n 0, sign = s\<rparr>"
  have ax: "valid (int_abs x)" "val (int_abs x) = \<bar>val x\<bar>"
    using x by (simp_all add: int_abs_correct)
  have b: "val (int_abs x) < 10 ^ n * \<bar>val y\<bar>"
    using abs_below_shifted [OF x y] False by (simp add: ax n_def)
  have "\<exists>ds r. div_loop n (shifted y n) result (int_abs x) = Some (result\<lparr>digits := ds\<rparr>, r)
      \<and> valid r \<and> val r = val (int_abs x) mod \<bar>val y\<bar>
      \<and> length ds = length (digits result)
      \<and> digits_val ds = digits_val (digits result) + val (int_abs x) div \<bar>val y\<bar>
      \<and> (\<forall>p<n. 0 \<le> ds ! p \<and> ds ! p \<le> 9)
      \<and> (\<forall>p. n \<le> p \<and> p < length ds \<longrightarrow> ds ! p = digits result ! p)"
    using ax b by (intro div_loop_correct [OF y]) (simp_all add: result_def)
  then obtain ds r where
    loop: "div_loop n (shifted y n) result (int_abs x) = Some (result\<lparr>digits := ds\<rparr>, r)"
    and len: "length ds = n"
    and dv: "digits_val ds = \<bar>val x\<bar> div \<bar>val y\<bar>"
    and lo: "\<forall>p<n. 0 \<le> ds ! p \<and> ds ! p \<le> 9"
    by (auto simp: result_def ax)
  have ok: "digits_ok ds"
    using lo len by (intro digits_okI) simp
  have "operator_div x y =
      (case div_loop n (shifted y n) result (int_abs x) of
         None \<Rightarrow> None
       | Some (result1, num2) \<Rightarrow>
           let r = remove_leading_zeros result1
           in Some (Inr (r\<lparr>sign := (if digits r = [] then 0 else sign r)\<rparr>)))"
    using False y(2) unfolding operator_div_def Let_def n_def shifted_def result_def s_def
    by (simp add: add_leading_zeros_def del: div_loop.simps)
  then have res: "operator_div x y
      = Some (Inr \<lparr>digits = strip ds, sign = (if strip ds = [] then 0 else s)\<rparr>)"
    by (simp add: loop [unfolded result_def] Let_def remove_leading_zeros_def
        strip_def [symmetric] result_def)
  have spm: "s = 1 \<or> s = - 1"
    by (simp add: s_def)
  have v: "valid \<lparr>digits = strip ds, sign = (if strip ds = [] then 0 else s)\<rparr>"
    using valid_normalised [OF ok spm] .
  have sx: "sign x \<noteq> 0"
    using False x y by (auto simp: valid_alt)
  have "s = sgn (val x) * sgn (val y)"
    using sx y(2) valid_sign_cases [OF x] valid_sign_cases [OF y(1)] val_sign [OF x]
      val_sign [OF y(1)] by (auto simp: s_def)
  moreover have "strip ds = [] \<Longrightarrow> \<bar>val x\<bar> div \<bar>val y\<bar> = 0"
    using strip_eq_Nil_iff [OF ok] dv by simp
  ultimately have "val \<lparr>digits = strip ds, sign = (if strip ds = [] then 0 else s)\<rparr>
      = val x sdiv val y"
    using dv by (auto simp: val_def sdiv_eq)
  with res v show ?thesis
    by blast
qed

lemma operator_mod_correct:
  assumes x: "valid x" and y: "valid y" "sign y \<noteq> 0"
  shows "\<exists>r. operator_mod x y = Some (Inr r) \<and> valid r \<and> val r = val x smod val y"
proof (cases "length (digits x) < length (digits y)")
  case True
  then have "\<bar>val x\<bar> mod \<bar>val y\<bar> = \<bar>val x\<bar>"
    using abs_below_longer [OF x y(1)] by simp
  then have "val x smod val y = val x"
    by (simp add: smod_eq mult_sgn_abs)
  with True x y show ?thesis
    by (simp add: operator_mod_def)
next
  case False
  define n where "n = length (digits x) - length (digits y) + 1"
  have ax: "valid (int_abs x)" "val (int_abs x) = \<bar>val x\<bar>"
    using x by (simp_all add: int_abs_correct)
  have b: "val (int_abs x) < 10 ^ n * \<bar>val y\<bar>"
    using abs_below_shifted [OF x y] False by (simp add: ax n_def)
  obtain r where loop: "mod_loop n (shifted y n) (int_abs x) = Some r"
    and r: "valid r" "val r = \<bar>val x\<bar> mod \<bar>val y\<bar>"
    using mod_loop_correct [OF y ax(1), of n] b ax by auto
  define res where "res = \<lparr>digits = digits r, sign = (if digits r = [] then 0 else sign x)\<rparr>"
  have "operator_mod x y =
      (case mod_loop n (shifted y n) (int_abs x) of
         None \<Rightarrow> None
       | Some result1 \<Rightarrow>
           let r = remove_leading_zeros result1
           in Some (Inr (r\<lparr>sign := (if digits r = [] then 0 else sign x)\<rparr>)))"
    using False y(2) unfolding operator_mod_def Let_def n_def shifted_def
    by (simp only: if_False)
  then have eq: "operator_mod x y = Some (Inr res)"
    using r(1) by (simp add: loop Let_def valid_strip_id remove_leading_zeros_def
        strip_def [symmetric] res_def)
  have sx: "sign x = 1 \<or> sign x = - 1"
    using False x y valid_sign_cases [OF x] by (auto simp: valid_alt)
  have v: "valid res"
    using r(1) sx by (auto simp: valid_alt res_def)
  have "0 < \<bar>val y\<bar>"
    using shifted_correct(3) [OF y, of 0] shifted_correct(2) [OF y, of 0] by simp
  then have "0 \<le> \<bar>val x\<bar> mod \<bar>val y\<bar>"
    by simp
  then have dr: "digits_val (digits r) = \<bar>val x\<bar> mod \<bar>val y\<bar>"
    using r val_abs [OF r(1)] by simp
  have "sgn (val x) = sign x"
    using x by (rule val_sign)
  then have "val res = val x smod val y"
    using dr by (auto simp: res_def val_def smod_eq)
  with eq v show ?thesis
    by blast
qed

section \<open>The rounds of each inner loop\<close>

text \<open>
  The divisor \<open>tmp\<close> starts as \<open>shifted y size\<close> and loses its first digit at the start of
  each round of the \<open>for\<close> loop, so that it is \<open>shifted y i\<close> in the round of position \<open>i\<close>,
  after \<open>size - i\<close> erasures.
\<close>

lemma tmp_at_position:
  "((\<lambda>t. t\<lparr>digits := tl (digits t)\<rparr>) ^^ d) (shifted y (i + d)) = shifted y i"
proof (induction d)
  case 0
  show ?case by simp
next
  case (Suc d)
  have "((\<lambda>t. t\<lparr>digits := tl (digits t)\<rparr>) ^^ Suc d) (shifted y (i + Suc d))
      = ((\<lambda>t. t\<lparr>digits := tl (digits t)\<rparr>) ^^ d)
          ((shifted y (Suc (i + d)))\<lparr>digits := tl (digits (shifted y (Suc (i + d))))\<rparr>)"
    by (simp only: funpow_Suc_right o_apply add_Suc_right)
  also have "\<dots> = ((\<lambda>t. t\<lparr>digits := tl (digits t)\<rparr>) ^^ d) (shifted y (i + d))"
    by (simp only: shifted_tl)
  finally show ?case
    using Suc.IH by simp
qed

lemma subtracted_Suc: "subtracted tmp (Suc m) num = operator_minus (subtracted tmp m num) tmp"
  by (simp add: subtracted_def)

lemma subtracted_0 [simp]: "subtracted tmp 0 num = num"
  by (simp add: subtracted_def)

lemma subtracted_correct:
  assumes "valid tmp" "valid num"
  shows "valid (subtracted tmp m num)"
    and "val (subtracted tmp m num) = val num - int m * val tmp"
proof -
  have "valid (subtracted tmp m num) \<and> val (subtracted tmp m num) = val num - int m * val tmp"
  proof (induction m)
    case 0
    with assms show ?case by simp
  next
    case (Suc m)
    with assms show ?case
      by (simp add: subtracted_Suc operator_minus_correct algebra_simps)
  qed
  then show "valid (subtracted tmp m num)"
    and "val (subtracted tmp m num) = val num - int m * val tmp"
    by simp_all
qed

lemma rounds_arith:
  fixes N T :: int
  assumes "0 \<le> N" "0 < T"
  shows "T \<le> N - int m * T \<longleftrightarrow> m < nat (N div T)"
proof -
  define k where "k = int m + 1"
  have "k * T \<le> N \<longleftrightarrow> k \<le> N div T"
  proof
    assume "k * T \<le> N"
    then have "k * T div T \<le> N div T"
      using assms(2) by (rule zdiv_mono1)
    then show "k \<le> N div T"
      using assms(2) by simp
  next
    assume "k \<le> N div T"
    then have "k * T \<le> N div T * T"
      using assms(2) by (intro mult_right_mono) simp_all
    moreover have "N div T * T + N mod T = N" "0 \<le> N mod T"
      using assms(2) by simp_all
    ultimately show "k * T \<le> N"
      by linarith
  qed
  moreover have "T \<le> N - int m * T \<longleftrightarrow> k * T \<le> N"
    by (simp add: k_def algebra_simps)
  moreover have "k \<le> N div T \<longleftrightarrow> m < nat (N div T)"
    unfolding k_def by linarith
  ultimately show ?thesis
    by simp
qed

lemma inner_rounds_correct:
  assumes tmp: "valid tmp" "0 < val tmp" and num: "valid num" "0 \<le> val num"
  defines "k \<equiv> nat (val num div val tmp)"
  shows "inner_rounds tmp num k"
    and "mod_inner tmp num = Some (subtracted tmp k num)"
    and "i < length (digits result) \<Longrightarrow>
         div_inner i tmp result num
           = Some (result\<lparr>digits := (digits result)[i := digits result ! i + int k]\<rparr>,
                   subtracted tmp k num)"
    and "valid (subtracted tmp k num)"
    and "val (subtracted tmp k num) = val num mod val tmp"
proof -
  have test: "operator_ge (subtracted tmp m num) tmp \<longleftrightarrow> m < k" for m
    using tmp num rounds_arith [OF num(2) tmp(2), of m]
    by (simp add: operator_ge_valid subtracted_correct k_def)
  then show "inner_rounds tmp num k"
    by (simp add: inner_rounds_def)
  have q: "int k = val num div val tmp"
    using tmp num by (simp add: k_def pos_imp_zdiv_nonneg_iff)
  show v: "valid (subtracted tmp k num)"
    using tmp num by (simp add: subtracted_correct)
  show vm: "val (subtracted tmp k num) = val num mod val tmp"
    using tmp num q by (simp add: subtracted_correct minus_div_mult_eq_mod)
  obtain r where r: "mod_inner tmp num = Some r" "valid r" "val r = val num mod val tmp"
    using mod_inner_correct [OF tmp num] by blast
  then have "r = subtracted tmp k num"
    using v vm by (intro val_inj) simp_all
  with r show "mod_inner tmp num = Some (subtracted tmp k num)"
    by simp
  assume "i < length (digits result)"
  from div_inner_correct [OF tmp num this] obtain r' where
    r': "div_inner i tmp result num
          = Some (result\<lparr>digits := (digits result)[i := digits result ! i + val num div val tmp]\<rparr>, r')"
      "valid r'" "val r' = val num mod val tmp"
    by blast
  then have "r' = subtracted tmp k num"
    using v vm by (intro val_inj) simp_all
  with r' q show "div_inner i tmp result num
           = Some (result\<lparr>digits := (digits result)[i := digits result ! i + int k]\<rparr>,
                   subtracted tmp k num)"
    by simp
qed


lemma loop_positions:
  assumes y: "valid y" "sign y \<noteq> 0"
  shows "valid num1 \<Longrightarrow> 0 \<le> val num1 \<Longrightarrow> val num1 < 10 ^ n * \<bar>val y\<bar> \<Longrightarrow>
    n \<le> length (digits result) \<Longrightarrow> (\<forall>p<n. digits result ! p = 0) \<Longrightarrow>
    \<exists>ds r. div_loop n (shifted y n) result num1 = Some (result\<lparr>digits := ds\<rparr>, r)
      \<and> mod_loop n (shifted y n) num1 = Some r
      \<and> (\<forall>i<n. \<exists>num k.
             mod_loop (n - 1 - i) (shifted y n) num1 = Some num
           \<and> k \<le> 9
           \<and> inner_rounds (shifted y i) num k
           \<and> mod_inner (shifted y i) num = Some (subtracted (shifted y i) k num)
           \<and> mod_loop (Suc (n - 1 - i)) (shifted y n) num1
               = Some (subtracted (shifted y i) k num)
           \<and> (\<forall>R. i < length (digits R) \<longrightarrow>
                  div_inner i (shifted y i) R num
                    = Some (R\<lparr>digits := (digits R)[i := digits R ! i + int k]\<rparr>,
                            subtracted (shifted y i) k num))
           \<and> ds ! i = int k)"
proof (induction n arbitrary: result num1)
  case 0
  show ?case
    by (intro exI [of _ "digits result"] exI [of _ num1]) simp
next
  case (Suc n)
  define tmp where "tmp = shifted y n"
  define k0 where "k0 = nat (val num1 div val tmp)"
  define r1 where "r1 = subtracted tmp k0 num1"
  define result1 where "result1 = result\<lparr>digits := (digits result)[n := int k0]\<rparr>"
  have tmp: "valid tmp" "val tmp = 10 ^ n * \<bar>val y\<bar>" "0 < val tmp"
    using shifted_correct [OF y, of n] by (simp_all add: tmp_def)
  have n: "n < length (digits result)" and zn: "digits result ! n = 0"
    using Suc.prems by simp_all
  have lt: "val num1 < 10 * val tmp"
    using Suc.prems by (simp add: tmp algebra_simps)
  have "val num1 div val tmp \<le> 9" "0 \<le> val num1 div val tmp"
    using div_digit_bound [OF Suc.prems(2) tmp(3) lt] by simp_all
  then have k0: "k0 \<le> 9"
    by (simp add: k0_def)
  note inner = inner_rounds_correct [OF tmp(1,3) Suc.prems(1,2), folded k0_def r1_def]
  have dinner: "div_inner n tmp result num1 = Some (result1, r1)"
    using inner(3) [OF n] zn by (simp add: result1_def)
  have minner: "mod_inner tmp num1 = Some r1"
    by (rule inner(2))
  have r1: "valid r1" "0 \<le> val r1" "val r1 < 10 ^ n * \<bar>val y\<bar>"
    using inner(4,5) tmp by simp_all
  have pre: "n \<le> length (digits result1)" "\<forall>p<n. digits result1 ! p = 0"
    using Suc.prems n by (simp_all add: result1_def)
  from Suc.IH [OF r1 pre] obtain ds r where
    dloop: "div_loop n tmp result1 r1 = Some (result1\<lparr>digits := ds\<rparr>, r)"
    and mloop: "mod_loop n tmp r1 = Some r"
    and pos: "\<forall>i<n. \<exists>num k.
             mod_loop (n - 1 - i) tmp r1 = Some num
           \<and> k \<le> 9
           \<and> inner_rounds (shifted y i) num k
           \<and> mod_inner (shifted y i) num = Some (subtracted (shifted y i) k num)
           \<and> mod_loop (Suc (n - 1 - i)) tmp r1
               = Some (subtracted (shifted y i) k num)
           \<and> (\<forall>R. i < length (digits R) \<longrightarrow>
                  div_inner i (shifted y i) R num
                    = Some (R\<lparr>digits := (digits R)[i := digits R ! i + int k]\<rparr>,
                            subtracted (shifted y i) k num))
           \<and> ds ! i = int k"
    unfolding tmp_def by blast
  from div_loop_correct [OF y r1 pre] obtain ds' r' where
    dloop': "div_loop n tmp result1 r1 = Some (result1\<lparr>digits := ds'\<rparr>, r')"
    and len: "length ds' = length (digits result1)"
    and hi: "\<forall>p. n \<le> p \<and> p < length ds' \<longrightarrow> ds' ! p = digits result1 ! p"
    unfolding tmp_def by blast
  have "digits (result1\<lparr>digits := ds'\<rparr>) = digits (result1\<lparr>digits := ds\<rparr>)"
    using dloop dloop' by simp
  then have "ds' = ds"
    by simp
  with hi len n have dsn: "ds ! n = int k0"
    by (simp add: result1_def)
  have dstep: "div_loop (Suc n) (shifted y (Suc n)) result num1 = Some (result\<lparr>digits := ds\<rparr>, r)"
    using dinner dloop by (simp add: shifted_tl tmp_def [symmetric] result1_def)
  have mstep: "mod_loop (Suc j) (shifted y (Suc n)) num1 = mod_loop j tmp r1" for j
    using minner by (simp add: shifted_tl tmp_def [symmetric])
  have "\<exists>num k.
             mod_loop (Suc n - 1 - i) (shifted y (Suc n)) num1 = Some num
           \<and> k \<le> 9
           \<and> inner_rounds (shifted y i) num k
           \<and> mod_inner (shifted y i) num = Some (subtracted (shifted y i) k num)
           \<and> mod_loop (Suc (Suc n - 1 - i)) (shifted y (Suc n)) num1
               = Some (subtracted (shifted y i) k num)
           \<and> (\<forall>R. i < length (digits R) \<longrightarrow>
                  div_inner i (shifted y i) R num
                    = Some (R\<lparr>digits := (digits R)[i := digits R ! i + int k]\<rparr>,
                            subtracted (shifted y i) k num))
           \<and> ds ! i = int k" if "i < Suc n" for i
  proof (cases "i = n")
    case True
    have "mod_loop (Suc n - 1 - i) (shifted y (Suc n)) num1 = Some num1"
      using True by simp
    moreover have "\<forall>R. n < length (digits R) \<longrightarrow>
                  div_inner n tmp R num1
                    = Some (R\<lparr>digits := (digits R)[n := digits R ! n + int k0]\<rparr>, r1)"
      using inner(3) by blast
    moreover have "mod_loop (Suc (Suc n - 1 - i)) (shifted y (Suc n)) num1 = Some r1"
      using True mstep [of 0] by simp
    ultimately show ?thesis
      using k0 inner(1) minner dsn True unfolding r1_def tmp_def by blast
  next
    case False
    with that have i: "i < n"
      by simp
    then have "Suc n - 1 - i = Suc (n - 1 - i)"
      by simp
    then have "mod_loop (Suc n - 1 - i) (shifted y (Suc n)) num1 = mod_loop (n - 1 - i) tmp r1"
      "mod_loop (Suc (Suc n - 1 - i)) (shifted y (Suc n)) num1 = mod_loop (Suc (n - 1 - i)) tmp r1"
      using mstep by simp_all
    with pos i show ?thesis
      by simp
  qed
  with dstep mstep [of n] mloop show ?case
    by (intro exI [of _ ds] exI [of _ r]) simp
qed

section \<open>Increment and decrement\<close>

declare scan_while.simps [simp del]

lemma scan_while_Some:
  "scan_while v ds i = Some k \<Longrightarrow>
     i \<le> k \<and> k < length ds \<and> ds ! k \<noteq> v \<and> (\<forall>j. i \<le> j \<and> j < k \<longrightarrow> ds ! j = v)"
proof (induction v ds i rule: scan_while.induct)
  case (1 v ds i)
  show ?case
  proof (cases "i < length ds \<and> ds ! i = v")
    case True
    then have "scan_while v ds (i + 1) = Some k"
      using "1.prems" by (subst (asm) scan_while.simps) simp
    with "1.IH" True have IH: "i + 1 \<le> k" "k < length ds" "ds ! k \<noteq> v"
      "\<forall>j. i + 1 \<le> j \<and> j < k \<longrightarrow> ds ! j = v"
      by simp_all
    have "ds ! j = v" if "i \<le> j" "j < k" for j
      using that IH(4) True by (cases "j = i") simp_all
    with IH show ?thesis by simp
  next
    case False
    then have "k = i" "i < length ds" "ds ! i \<noteq> v"
      using "1.prems" by (subst (asm) scan_while.simps; simp split: if_splits)+
    then show ?thesis by simp
  qed
qed

lemma scan_while_finds:
  "i \<le> j \<Longrightarrow> j < length ds \<Longrightarrow> ds ! j \<noteq> v \<Longrightarrow> \<exists>k. scan_while v ds i = Some k"
proof (induction v ds i rule: scan_while.induct)
  case (1 v ds i)
  show ?case
  proof (cases "ds ! i = v")
    case True
    with "1.prems" have "i + 1 \<le> j" "i < length ds"
      by (cases "i = j"; simp)+
    with "1.IH" True "1.prems" obtain k where "scan_while v ds (i + 1) = Some k"
      by blast
    with True \<open>i < length ds\<close> show ?thesis
      by (subst scan_while.simps) simp
  next
    case False
    with "1.prems" show ?thesis
      by (subst scan_while.simps) simp
  qed
qed

lemma fill_down_eq: "i \<le> length ds \<Longrightarrow> fill_down ds i v = replicate i v @ drop i ds"
proof (induction i arbitrary: ds)
  case 0
  then show ?case by simp
next
  case (Suc i)
  then have "fill_down ds (Suc i) v = replicate i v @ drop i (ds[i := v])"
    by simp
  also have "drop i (ds[i := v]) = v # drop (Suc i) ds"
    using Suc.prems by (simp add: drop_update_cancel Cons_nth_drop_Suc [symmetric] upd_conv_take_nth_drop)
  finally show ?case
    by (simp add: replicate_app_Cons_same)
qed

lemma take_all_equal:
  "k \<le> length ds \<Longrightarrow> \<forall>j<k. ds ! j = v \<Longrightarrow> take k ds = replicate k v"
  by (simp add: list_eq_iff_nth_eq)

lemma digits_val_replicate_9: "digits_val (replicate k 9) = 10 ^ k - 1"
  by (induction k) simp_all

text \<open>The digit vector after the scan and the fill of \<open>abs_inc\<close> and \<open>abs_dec\<close>.\<close>

lemma update_then_fill:
  "k < length ds \<Longrightarrow>
   fill_down (ds[k := d]) k v = replicate k v @ d # drop (Suc k) ds"
  by (simp add: fill_down_eq Cons_nth_drop_Suc [symmetric] upd_conv_take_nth_drop)

lemma split_at_run:
  "k < length ds \<Longrightarrow> \<forall>j<k. ds ! j = v \<Longrightarrow> ds = replicate k v @ ds ! k # drop (Suc k) ds"
  using id_take_nth_drop [of k ds] take_all_equal [of k ds v] by simp

lemma carry_up_value:
  assumes "k < length ds" "\<forall>j<k. ds ! j = 9"
  shows "digits_val (replicate k 0 @ (ds ! k + 1) # drop (Suc k) ds) = digits_val ds + 1"
proof -
  have "digits_val ds = digits_val (replicate k 9 @ ds ! k # drop (Suc k) ds)"
    using split_at_run [OF assms] by simp
  then show ?thesis
    by (simp add: digits_val_append digits_val_replicate_9 algebra_simps)
qed

lemma borrow_down_value:
  assumes "k < length ds" "\<forall>j<k. ds ! j = 0"
  shows "digits_val (replicate k 9 @ (ds ! k - 1) # drop (Suc k) ds) = digits_val ds - 1"
proof -
  have "digits_val ds = digits_val (replicate k 0 @ ds ! k # drop (Suc k) ds)"
    using split_at_run [OF assms] by simp
  then show ?thesis
    by (simp add: digits_val_append digits_val_replicate_9 algebra_simps)
qed

lemma digits_ok_replicate_9 [simp]: "digits_ok (replicate k 9)"
  by (simp add: digits_ok_def)

lemma remove_leading_zeros_eq:
  "remove_leading_zeros x = \<lparr>digits = strip (digits x), sign = sign x\<rparr>"
  by (simp add: remove_leading_zeros_def strip_def)

lemma abs_inc_correct:
  assumes "valid x" "sign x \<noteq> 0"
  shows "\<exists>r. abs_inc x = Some r \<and> valid r \<and> val r = sign x * (\<bar>val x\<bar> + 1)"
proof -
  define ds where "ds = digits x @ [0]"
  have ok: "digits_ok ds"
    using assms by (simp add: ds_def valid_digits_ok)
  have "ds ! length (digits x) \<noteq> 9" "length (digits x) < length ds"
    by (simp_all add: ds_def)
  then obtain k where k: "scan_while 9 ds 0 = Some k"
    using scan_while_finds [of 0 "length (digits x)" ds 9] by auto
  from scan_while_Some [OF k] have kl: "k < length ds" and nk: "ds ! k \<noteq> 9"
    and low: "\<forall>j<k. ds ! j = 9"
    by simp_all
  define ds2 where "ds2 = replicate k 0 @ (ds ! k + 1) # drop (Suc k) ds"
  have dk: "0 \<le> ds ! k" "ds ! k \<le> 8"
    using digits_ok_nth [OF ok kl] nk by simp_all
  have ok2: "digits_ok ds2"
    using ok dk by (simp add: ds2_def digits_ok_drop)
  have v2: "digits_val ds2 = digits_val (digits x) + 1"
    using carry_up_value [OF kl low] by (simp add: ds2_def ds_def digits_val_snoc)
  have res: "abs_inc x = Some \<lparr>digits = strip ds2, sign = sign x\<rparr>"
    using k kl
    by (simp add: abs_inc_def ds_def [symmetric] update_then_fill ds2_def
        remove_leading_zeros_eq)
  have "0 \<le> digits_val (digits x)"
    using assms by (simp add: valid_digits_val_nonneg)
  then have "digits_val ds2 \<noteq> 0"
    using v2 by simp
  then have ne: "strip ds2 \<noteq> []"
    using ok2 by (simp add: strip_eq_Nil_iff)
  have pm: "sign x = 1 \<or> sign x = - 1"
    using assms valid_sign_cases [of x] by auto
  have "valid \<lparr>digits = strip ds2, sign = sign x\<rparr>"
    using valid_normalised [OF ok2 pm] ne by simp
  moreover have "val \<lparr>digits = strip ds2, sign = sign x\<rparr> = sign x * (\<bar>val x\<bar> + 1)"
    using v2 assms by (simp add: val_def [of "\<lparr>digits = _, sign = _\<rparr>"] val_abs)
  ultimately show ?thesis
    using res by blast
qed

lemma abs_dec_correct:
  assumes "valid x" "sign x \<noteq> 0"
  shows "\<exists>r. abs_dec x = Some r \<and> valid r \<and> val r = sign x * (\<bar>val x\<bar> - 1)"
proof -
  define ds where "ds = digits x"
  have ok: "digits_ok ds"
    using assms by (simp add: ds_def valid_digits_ok)
  have ne: "ds \<noteq> []" and l: "last ds \<noteq> 0"
    using assms by (auto simp: ds_def valid_alt)
  then have "ds ! (length ds - 1) \<noteq> 0" "length ds - 1 < length ds"
    by (simp_all add: last_conv_nth)
  then obtain k where k: "scan_while 0 ds 0 = Some k"
    using scan_while_finds [of 0 "length ds - 1" ds 0] by auto
  from scan_while_Some [OF k] have kl: "k < length ds" and nk: "ds ! k \<noteq> 0"
    and low: "\<forall>j<k. ds ! j = 0"
    by simp_all
  define ds2 where "ds2 = replicate k 9 @ (ds ! k - 1) # drop (Suc k) ds"
  have dk: "1 \<le> ds ! k" "ds ! k \<le> 9"
    using digits_ok_nth [OF ok kl] nk by simp_all
  have ok2: "digits_ok ds2"
    using ok dk by (simp add: ds2_def digits_ok_drop)
  have v2: "digits_val ds2 = digits_val (digits x) - 1"
    using borrow_down_value [OF kl low] by (simp add: ds2_def ds_def)
  have res: "abs_dec x = Some \<lparr>digits = strip ds2, sign = (if strip ds2 = [] then 0 else sign x)\<rparr>"
    using k kl
    by (simp add: abs_dec_def ds_def [symmetric] update_then_fill ds2_def Let_def
        remove_leading_zeros_eq)
  have pm: "sign x = 1 \<or> sign x = - 1"
    using assms valid_sign_cases [of x] by auto
  have v: "valid \<lparr>digits = strip ds2, sign = (if strip ds2 = [] then 0 else sign x)\<rparr>"
    using valid_normalised [OF ok2 pm] .
  have "strip ds2 = [] \<Longrightarrow> digits_val (digits x) - 1 = 0"
    using strip_eq_Nil_iff [OF ok2] v2 by simp
  then have "val \<lparr>digits = strip ds2, sign = (if strip ds2 = [] then 0 else sign x)\<rparr>
      = sign x * (\<bar>val x\<bar> - 1)"
    using v2 assms by (auto simp: val_def [of "\<lparr>digits = _, sign = _\<rparr>"] val_abs)
  with v res show ?thesis
    by blast
qed

lemma Int_int_1: "Int_int 1 = \<lparr>digits = [1], sign = 1\<rparr>"
  by code_simp

lemma Int_int_1_correct [simp]: "valid (Int_int 1)" "val (Int_int 1) = 1"
  by (simp_all add: Int_int_1 valid_def val_def)

lemma sign_times_abs: "valid x \<Longrightarrow> sign x * \<bar>val x\<bar> = val x"
  using val_sign [of x] mult_sgn_abs [of "val x"] by simp

lemma operator_inc_correct:
  assumes "valid x"
  shows "\<exists>r. operator_inc x = Some r \<and> valid r \<and> val r = val x + 1"
proof -
  consider "sign x = 0" | "sign x = 1" | "sign x = - 1"
    using valid_sign_cases [OF assms] by auto
  then show ?thesis
  proof cases
    case 1
    with assms have "digits x = []"
      by (simp add: valid_alt)
    with 1 show ?thesis
      by (simp add: operator_inc_def valid_def val_def)
  next
    case 2
    then obtain r where r: "abs_inc x = Some r" "valid r" "val r = sign x * (\<bar>val x\<bar> + 1)"
      using abs_inc_correct [OF assms] by auto
    have "val r = val x + 1"
      using sign_times_abs [OF assms] 2 by (simp add: r(3))
    with r 2 show ?thesis
      by (simp add: operator_inc_def)
  next
    case 3
    then obtain r where r: "abs_dec x = Some r" "valid r" "val r = sign x * (\<bar>val x\<bar> - 1)"
      using abs_dec_correct [OF assms] by auto
    have "val r = val x + 1"
      using sign_times_abs [OF assms] 3 by (simp add: r(3))
    with r 3 show ?thesis
      by (simp add: operator_inc_def)
  qed
qed

lemma operator_dec_correct:
  assumes "valid x"
  shows "\<exists>r. operator_dec x = Some r \<and> valid r \<and> val r = val x - 1"
proof -
  consider "sign x = 0" | "sign x = 1" | "sign x = - 1"
    using valid_sign_cases [OF assms] by auto
  then show ?thesis
  proof cases
    case 1
    with assms have "digits x = []"
      by (simp add: valid_alt)
    with 1 show ?thesis
      by (simp add: operator_dec_def valid_def val_def)
  next
    case 2
    then obtain r where r: "abs_dec x = Some r" "valid r" "val r = sign x * (\<bar>val x\<bar> - 1)"
      using abs_dec_correct [OF assms] by auto
    have "val r = val x - 1"
      using sign_times_abs [OF assms] 2 by (simp add: r(3))
    with r 2 show ?thesis
      by (simp add: operator_dec_def)
  next
    case 3
    then obtain r where r: "abs_inc x = Some r" "valid r" "val r = sign x * (\<bar>val x\<bar> + 1)"
      using abs_inc_correct [OF assms] by auto
    have "val r = val x - 1"
      using sign_times_abs [OF assms] 3 by (simp add: r(3))
    with r 3 show ?thesis
      by (simp add: operator_dec_def)
  qed
qed

section \<open>Literals\<close>

lemma is_digit_not_sign: "is_digit c \<Longrightarrow> c \<noteq> CHR ''+'' \<and> c \<noteq> CHR ''-'' \<and> c \<noteq> CHR 0x00"
  by (auto simp: is_digit_def)

lemma dig_range: "is_digit c \<Longrightarrow> 0 \<le> dig c \<and> dig c \<le> 9"
  by (auto simp: is_digit_def dig_def)

lemma undig_dig: "undig (dig c) = c"
  by (simp add: undig_def dig_def)

lemma dig_undig: "0 \<le> d \<Longrightarrow> d \<le> 9 \<Longrightarrow> dig (undig d) = d"
  by (simp add: undig_def dig_def of_char_of of_nat_of_char)

lemma is_digit_undig: "0 \<le> d \<Longrightarrow> d \<le> 9 \<Longrightarrow> is_digit (undig d)"
proof -
  assume d: "0 \<le> d" "d \<le> 9"
  then have "(of_char (undig d) :: int) = d + 48"
    by (simp add: undig_def of_char_of)
  then have "int (of_char (undig d)) = d + 48"
    by (simp add: of_nat_of_char)
  with d show ?thesis
    by (simp add: is_digit_def)
qed

lemma dig_zero_iff: "dig c = 0 \<longleftrightarrow> c = CHR ''0''"
proof
  assume "dig c = 0"
  then have "(of_char c :: nat) = of_char CHR ''0''"
    by (simp add: dig_def)
  then show "c = CHR ''0''"
    by (rule of_char_eqI)
qed (simp add: dig_def)

declare is_integer_loop.simps [simp del] push_digits.simps [simp del]

lemma literalE:
  assumes "literal s"
  obtains pre body where "s = pre @ body" "pre = [] \<or> pre = ''+'' \<or> pre = ''-''"
    "body \<noteq> []" "list_all is_digit body"
proof (cases s)
  case Nil
  with assms show ?thesis
    by (simp add: literal_def)
next
  case (Cons c cs)
  show ?thesis
  proof (cases "c = CHR ''+'' \<or> c = CHR ''-''")
    case True
    with Cons assms have "s = [c] @ cs" "[c] = [] \<or> [c] = ''+'' \<or> [c] = ''-''"
      "cs \<noteq> []" "list_all is_digit cs"
      by (auto simp: literal_def)
    then show ?thesis
      by (rule that)
  next
    case False
    with Cons assms have "s = [] @ s" "s \<noteq> []" "list_all is_digit s"
      by (auto simp: literal_def)
    then show ?thesis
      using that by blast
  qed
qed

lemma is_integer_loop_iff:
  "is_integer_loop chars i len \<longleftrightarrow> (\<forall>j. i \<le> j \<and> j < len \<longrightarrow> is_digit (chars ! j))"
proof (induction chars i len rule: is_integer_loop.induct)
  case (1 chars i len)
  show ?case
  proof (cases "i < len")
    case False
    then show ?thesis
      by (subst is_integer_loop.simps) auto
  next
    case lt: True
    show ?thesis
    proof (cases "is_digit (chars ! i)")
      case False
      with lt have "\<not> is_integer_loop chars i len"
        by (subst is_integer_loop.simps) (auto simp: is_digit_def)
      with False lt show ?thesis
        by auto
    next
      case True
      with lt have "is_integer_loop chars i len = is_integer_loop chars (i + 1) len"
        by (subst is_integer_loop.simps) (auto simp: is_digit_def)
      also have "\<dots> \<longleftrightarrow> (\<forall>j. i + 1 \<le> j \<and> j < len \<longrightarrow> is_digit (chars ! j))"
        using "1.IH" lt True by (auto simp: is_digit_def)
      also have "\<dots> \<longleftrightarrow> (\<forall>j. i \<le> j \<and> j < len \<longrightarrow> is_digit (chars ! j))"
      proof (intro iffI allI impI)
        fix j
        assume a: "\<forall>j. i + 1 \<le> j \<and> j < len \<longrightarrow> is_digit (chars ! j)" and j: "i \<le> j \<and> j < len"
        show "is_digit (chars ! j)"
        proof (cases "j = i")
          case True
          with \<open>is_digit (chars ! i)\<close> show ?thesis by simp
        next
          case False
          with j have "i + 1 \<le> j \<and> j < len" by simp
          with a show ?thesis by blast
        qed
      next
        fix j
        assume a: "\<forall>j. i \<le> j \<and> j < len \<longrightarrow> is_digit (chars ! j)" and j: "i + 1 \<le> j \<and> j < len"
        then have "i \<le> j \<and> j < len" by simp
        with a show "is_digit (chars ! j)" by blast
      qed
      finally show ?thesis .
    qed
  qed
qed

lemma map_from_the_back:
  "map (\<lambda>i. f (chars ! (length chars - 1 - i))) [0..<length chars - k] = map f (rev (drop k chars))"
  by (auto simp: list_eq_iff_nth_eq rev_nth intro!: arg_cong [where f = "\<lambda>i. f (chars ! i)"])

lemma digits_from_the_back:
  "map (\<lambda>i. int (of_char (chars ! (length chars - 1 - i))) - int (of_char CHR ''0''))
       [0..<length chars - k]
   = map dig (rev (drop k chars))"
  unfolding dig_def by (rule map_from_the_back)

lemma strlen_no_nul: "\<forall>c \<in> set chars. c \<noteq> CHR 0x00 \<Longrightarrow> strlen chars = length chars"
  by (simp add: strlen_def takeWhile_eq_all_conv [THEN iffD2])

lemma parse_literal:
  assumes pre: "pre = [] \<or> pre = ''+'' \<or> pre = ''-''"
    and body: "body \<noteq> []" "list_all is_digit body"
  shows "Int_chars (pre @ body)
    = Inr \<lparr>digits = strip (map dig (rev body)),
           sign = (if strip (map dig (rev body)) = [] then 0
                   else if pre = ''-'' then - 1 else 1)\<rparr>"
proof -
  define chars where "chars = pre @ body"
  have dg: "\<forall>c \<in> set body. is_digit c"
    using body by (simp add: list_all_iff)
  have "\<forall>c \<in> set pre. c \<noteq> CHR 0x00"
    using pre by auto
  moreover have "\<forall>c \<in> set body. c \<noteq> CHR 0x00"
    using dg is_digit_not_sign by blast
  ultimately have "\<forall>c \<in> set chars. c \<noteq> CHR 0x00"
    by (auto simp: chars_def)
  then have len: "strlen chars = length chars"
    by (rule strlen_no_nul)
  have "is_digit (body ! 0)"
    using dg body by (cases body) simp_all
  then have b0: "body ! 0 \<noteq> CHR ''+''" "body ! 0 \<noteq> CHR ''-''"
    using is_digit_not_sign by blast+
  have ll: "length chars = length pre + length body"
    by (simp add: chars_def)
  have loop: "is_integer_loop chars (length pre) (length chars)"
    unfolding is_integer_loop_iff
  proof (intro allI impI)
    fix j assume "length pre \<le> j \<and> j < length chars"
    then have "chars ! j = body ! (j - length pre)" "j - length pre < length body"
      by (auto simp: chars_def nth_append)
    with dg show "is_digit (chars ! j)"
      by simp
  qed
  have "drop (length pre) chars = body"
    by (simp add: chars_def)
  then have ds: "map (\<lambda>i. int (of_char (chars ! (length chars - 1 - i))) - int (of_char CHR ''0''))
       [0..<length chars - length pre] = map dig (rev body)"
    using digits_from_the_back [of chars "length pre"] by simp
  have b1: "1 \<le> length body"
    using body by (cases body) simp_all
  from pre consider "pre = []" | "pre = ''+''" | "pre = ''-''"
    by blast
  then have "Int_chars chars
    = Inr (let r = remove_leading_zeros \<lparr>digits = map dig (rev body),
                                          sign = (if pre = ''-'' then - 1 else 1)\<rparr>
           in r\<lparr>sign := (if digits r = [] then 0 else sign r)\<rparr>)"
  proof cases
    case 1
    then have c0: "chars ! 0 \<noteq> CHR ''+''" "chars ! 0 \<noteq> CHR ''-''"
      using b0 by (simp_all add: chars_def)
    have ok: "is_integer chars (length chars)"
      using loop c0 1 body by (simp add: is_integer_def chars_def)
    show ?thesis
      using ds 1 by (simp add: Int_chars_def Let_def len ok c0)
  next
    case 2
    then have c0: "chars ! 0 = CHR ''+''"
      by (simp add: chars_def)
    have ok: "is_integer chars (length chars)"
      using loop c0 2 body ll by (simp add: is_integer_def)
    show ?thesis
      using ds 2 by (simp add: Int_chars_def Let_def len ok c0)
  next
    case 3
    then have c0: "chars ! 0 = CHR ''-''"
      by (simp add: chars_def)
    have ok: "is_integer chars (length chars)"
      using loop c0 3 body ll by (simp add: is_integer_def)
    show ?thesis
      using ds 3 by (simp add: Int_chars_def Let_def len ok c0)
  qed
  then show ?thesis
    by (simp add: chars_def Let_def remove_leading_zeros_eq)
qed

lemma strip_map_dig:
  "list_all is_digit body \<Longrightarrow>
   strip (map dig (rev body)) = map dig (rev (dropWhile (\<lambda>c. c = CHR ''0'') body))"
  by (simp add: strip_def rev_map dropWhile_map comp_def dig_zero_iff)

lemma operator_out_undig:
  "operator_out a = (if sign a = 0 then ''0''
     else (if sign a = - 1 then ''-'' else []) @ map undig (rev (digits a)))"
  by (simp add: operator_out_def undig_def [abs_def])

lemma parse_zero: "Int_chars ''0'' = Inr \<lparr>digits = [], sign = 0\<rparr>"
  by code_simp

lemma parse_rendering:
  assumes "valid a"
  shows "Int_chars (operator_out a) = Inr a"
proof (cases "sign a = 0")
  case True
  with assms have "a = \<lparr>digits = [], sign = 0\<rparr>"
    by (simp add: valid_alt)
  with True show ?thesis
    by (simp add: operator_out_undig parse_zero)
next
  case False
  define pre where "pre = (if sign a = - 1 then ''-'' else [])"
  define body where "body = map undig (rev (digits a))"
  have ok: "digits_ok (digits a)" and ne: "digits a \<noteq> []"
    using assms False by (auto simp: valid_alt)
  have out: "operator_out a = pre @ body"
    using False by (simp add: operator_out_undig pre_def body_def)
  have p: "pre = [] \<or> pre = ''+'' \<or> pre = ''-''"
    by (simp add: pre_def)
  have b: "body \<noteq> []"
    using ne by (simp add: body_def)
  have d: "list_all is_digit body"
    using ok by (auto simp: body_def list_all_iff digits_ok_def intro: is_digit_undig)
  have "map dig (rev body) = map (\<lambda>d. dig (undig d)) (digits a)"
    by (simp add: body_def rev_map)
  also have "\<dots> = digits a"
    using ok by (intro map_idI) (simp add: digits_ok_def dig_undig)
  finally have rt: "strip (map dig (rev body)) = digits a"
    using assms by (simp add: valid_strip_id)
  have sg: "(if pre = ''-'' then - 1 else 1) = sign a"
    using False valid_sign_cases [OF assms] by (auto simp: pre_def)
  show ?thesis
    using ne unfolding out parse_literal [OF p b d] rt sg by simp
qed

lemma render_parsed_literal:
  assumes "literal s"
  shows "\<exists>x. Int_chars s = Inr x \<and> valid x \<and> operator_out x = canonical s"
proof -
  from assms obtain pre body where s: "s = pre @ body"
    and p: "pre = [] \<or> pre = ''+'' \<or> pre = ''-''"
    and b: "body \<noteq> []" and d: "list_all is_digit body"
    by (rule literalE)
  define significant where "significant = dropWhile (\<lambda>c. c = CHR ''0'') body"
  define x where "x = \<lparr>digits = strip (map dig (rev body)),
      sign = (if strip (map dig (rev body)) = [] then 0 else if pre = ''-'' then - 1 else 1)\<rparr>"
  have px: "Int_chars s = Inr x"
    unfolding s x_def by (rule parse_literal [OF p b d])
  have "is_digit (hd body)"
    using b d by (cases body) simp_all
  then have h: "hd body \<noteq> CHR ''+''" "hd body \<noteq> CHR ''-''"
    using is_digit_not_sign by blast+
  have hs: "(hd s = CHR ''-'') \<longleftrightarrow> pre = ''-''" "(hd s = CHR ''+'') \<longleftrightarrow> pre = ''+''"
    using p h b by (auto simp: s)
  have body': "(if pre = ''+'' \<or> pre = ''-'' then tl s else s) = body"
    using p by (auto simp: s)
  have can: "canonical s = (if significant = [] then ''0''
      else (if pre = ''-'' then ''-'' else []) @ significant)"
    unfolding canonical_def Let_def hs body' significant_def [symmetric] ..
  have st: "strip (map dig (rev body)) = map dig (rev significant)"
    using d by (simp add: strip_map_dig significant_def)
  have "list_all is_digit significant"
    using d by (auto simp: significant_def list_all_iff dest: set_dropWhileD)
  have un: "map undig (rev (map dig (rev significant))) = significant"
    by (simp add: rev_map undig_dig comp_def)
  have "digits_ok (map dig (rev body))"
    using d by (auto simp: digits_ok_def list_all_iff dig_range)
  then have v: "valid x"
    unfolding x_def by (intro valid_normalised) simp_all
  have "operator_out x = canonical s"
    unfolding can operator_out_undig x_def st by (simp add: un)
  with px v show ?thesis
    by blast
qed

section \<open>Construction from a native \<open>int\<close>\<close>

lemma sint_int_div_10:
  fixes w :: "32 word"
  assumes "0 < sint w"
  shows "sint (int_div w 10) = sint w div 10"
proof -
  have b: "sint w < 2 ^ 31"
    using sint_lt [of w] by simp
  have "sint (int_div w 10) = signed_take_bit 31 (sint w div 10)"
    using assms by (simp add: int_div_def sint_sbintrunc' sdiv_nonneg)
  also have "\<dots> = sint w div 10"
    by (rule signed_take_bit_int_eq_self) (use assms b in auto)
  finally show ?thesis .
qed

lemma sint_int_rem_10:
  fixes w :: "32 word"
  assumes "0 < sint w"
  shows "sint (int_rem w 10) = sint w mod 10"
proof -
  have "sint (int_rem w 10) = signed_take_bit 31 (sint w mod 10)"
    using assms by (simp add: int_rem_def sint_sbintrunc' smod_nonneg)
  also have "\<dots> = sint w mod 10"
    by (rule signed_take_bit_int_eq_self) (auto intro: order_trans [OF _ pos_mod_sign] less_trans [OF pos_mod_bound])
  finally show ?thesis .
qed

lemma push_digits_correct:
  "0 \<le> sint w \<Longrightarrow>
   \<exists>es. push_digits w ds = ds @ es \<and> digits_ok es \<and> digits_val es = sint w
        \<and> (es \<noteq> [] \<longrightarrow> last es \<noteq> 0)"
proof (induction w ds rule: push_digits.induct)
  case (1 integer ds)
  show ?case
  proof (cases "0 <s integer")
    case False
    then have "sint integer = 0"
      using "1.prems" by (simp add: word_sless_alt)
    moreover have "push_digits integer ds = ds"
      using False by (subst push_digits.simps) simp
    ultimately show ?thesis
      by simp
  next
    case True
    then have pos: "0 < sint integer"
      by (simp add: word_sless_alt)
    define d where "d = sint (int_rem integer 10)"
    have d: "d = sint integer mod 10"
      using pos by (simp add: d_def sint_int_rem_10)
    have q: "sint (int_div integer 10) = sint integer div 10"
      using pos by (rule sint_int_div_10)
    then have "0 \<le> sint (int_div integer 10)"
      using pos by simp
    from "1.IH" [OF True this] obtain es where
      es: "push_digits (int_div integer 10) (ds @ [sint (int_rem integer 10)]) = (ds @ [d]) @ es"
      "digits_ok es" "digits_val es = sint integer div 10" "es \<noteq> [] \<longrightarrow> last es \<noteq> 0"
      unfolding d_def q by blast
    have "push_digits integer ds = ds @ (d # es)"
      using True es(1) by (subst push_digits.simps) simp
    moreover have "digits_ok (d # es)"
      using es(2) d by simp
    moreover have "digits_val (d # es) = sint integer"
      using es(3) d by simp
    moreover have "last (d # es) \<noteq> 0"
    proof (cases "es = []")
      case True
      then have "sint integer div 10 = 0"
        using es(3) by simp
      then have "d = sint integer"
        using d pos by (simp add: div_eq_0_iff)
      with pos True show ?thesis by simp
    next
      case False
      with es(4) show ?thesis by simp
    qed
    ultimately show ?thesis
      by blast
  qed
qed

text \<open>Every \<open>int\<close> but the least one gives the valid object of its value.\<close>

lemma Int_int_correct:
  fixes i :: "32 word"
  assumes "i \<noteq> - 2147483648"
  shows "valid (Int_int i)" and "val (Int_int i) = sint i"
proof -
  define m where "m = (if i <s 0 then - i else i)"
  have nmin: "sint i \<noteq> - (2 ^ 31)"
  proof
    assume "sint i = - (2 ^ 31)"
    then have "word_of_int (sint i) = (word_of_int (- (2 ^ 31)) :: 32 word)"
      by simp
    then have "i = - 2147483648"
      by simp
    with assms show False by simp
  qed
  have lo: "- (2 ^ 31) \<le> sint i" and hi: "sint i < 2 ^ 31"
    using sint_ge [of i] sint_lt [of i] by simp_all
  have "sint (- i) = signed_take_bit 31 (- sint i)"
    by (simp add: sint_word_ariths)
  also have "\<dots> = - sint i"
    by (rule signed_take_bit_int_eq_self) (use lo hi nmin in auto)
  finally have neg: "sint (- i) = - sint i" .
  have m: "sint m = \<bar>sint i\<bar>"
    using neg by (auto simp: m_def word_sless_alt)
  then have "0 \<le> sint m" by simp
  from push_digits_correct [OF this, of "[]"] obtain es where
    es: "push_digits m [] = es" "digits_ok es" "digits_val es = \<bar>sint i\<bar>"
    "es \<noteq> [] \<longrightarrow> last es \<noteq> 0"
    unfolding m by auto
  have z: "i = 0 \<longleftrightarrow> sint i = 0"
    by (simp add: signed_eq_0_iff)
  have res: "Int_int i = \<lparr>digits = es, sign = (if 0 <s i then 1 else - 1)\<rparr>" if "i \<noteq> 0"
    using that es(1) [unfolded m_def] by (simp add: Int_int_def Let_def)
  show "valid (Int_int i)"
  proof (cases "i = 0")
    case True
    then show ?thesis by simp
  next
    case False
    then have "es \<noteq> []"
      using es(3) z by auto
    with False es show ?thesis
      by (simp add: res valid_alt)
  qed
  show "val (Int_int i) = sint i"
  proof (cases "i = 0")
    case True
    then show ?thesis by simp
  next
    case False
    then have "sint i \<noteq> 0"
      using z by simp
    then show ?thesis
      using es(3) False by (simp add: res val_def word_sless_alt)
  qed
qed

section \<open>Division with remainder\<close>

lemma sign_smod:
  assumes "valid a" "valid r" "val r = val a smod k"
  shows "sign r = 0 \<or> sign r = sign a"
proof -
  have sr: "sgn (val r) = sign r" and sa: "sgn (val a) = sign a"
    using val_sign [OF assms(2)] val_sign [OF assms(1)] by blast+
  have "0 \<le> \<bar>val a\<bar> mod \<bar>k\<bar>"
    by (cases "k = 0") simp_all
  then have "sgn (sgn (val a) * (\<bar>val a\<bar> mod \<bar>k\<bar>)) = 0
      \<or> sgn (sgn (val a) * (\<bar>val a\<bar> mod \<bar>k\<bar>)) = sgn (val a)"
    by (auto simp: sgn_mult sgn_if)
  then show ?thesis
    unfolding sr [symmetric] sa [symmetric] assms(3) smod_eq .
qed

text \<open>
  Claim C1. For valid \<open>a\<close> and \<open>b\<close> with \<open>b\<close> not zero, \<open>a / b\<close> and \<open>a % b\<close> return
  values \<open>q\<close> and \<open>r\<close> with \<open>a == q * b + r\<close>; the sign of \<open>r\<close> is zero or the sign of
  \<open>a\<close>; the division truncates: the magnitude of \<open>q\<close> is the magnitude of \<open>a\<close> divided
  by that of \<open>b\<close>, rounded down.
\<close>

theorem division_identity:
  assumes "valid a" "valid b" "\<not> is_zero b"
  shows "\<exists>q r. operator_div a b = Some (Inr q) \<and> operator_mod a b = Some (Inr r)
           \<and> operator_eq a (operator_plus (operator_times q b) r)
           \<and> (sign r = 0 \<or> sign r = sign a)
           \<and> \<bar>val q\<bar> = \<bar>val a\<bar> div \<bar>val b\<bar>"
proof -
  have nz: "sign b \<noteq> 0"
    using assms by (simp add: is_zero_def)
  obtain q where q: "operator_div a b = Some (Inr q)" "valid q" "val q = val a sdiv val b"
    using operator_div_correct [OF assms(1,2) nz] by blast
  obtain r where r: "operator_mod a b = Some (Inr r)" "valid r" "val r = val a smod val b"
    using operator_mod_correct [OF assms(1,2) nz] by blast
  have qb: "valid (operator_times q b)" "val (operator_times q b) = val q * val b"
    using q assms by (simp_all add: operator_times_correct)
  have s: "valid (operator_plus (operator_times q b) r)"
    "val (operator_plus (operator_times q b) r) = val q * val b + val r"
    using qb r by (simp_all add: operator_plus_correct)
  have "val (operator_plus (operator_times q b) r) = val a"
    unfolding s q r by (rule sdiv_mult_smod_eq)
  then have "a = operator_plus (operator_times q b) r"
    using assms(1) s(1) by (intro val_inj) simp_all
  then have e: "operator_eq a (operator_plus (operator_times q b) r)"
    by (simp add: operator_eq_iff)
  have sg: "sign r = 0 \<or> sign r = sign a"
    using assms(1) r(2,3) by (rule sign_smod)
  have bn: "val b \<noteq> 0"
    using assms(2) nz val_sign [of b] by auto
  then have "0 \<le> \<bar>val a\<bar> div \<bar>val b\<bar>"
    by (simp add: pos_imp_zdiv_nonneg_iff)
  then have m: "\<bar>val q\<bar> = \<bar>val a\<bar> div \<bar>val b\<bar>"
    unfolding q sdiv_eq using bn by (cases "val a = 0") (simp_all add: abs_mult)
  from q(1) r(1) e sg m show ?thesis
    by blast
qed

theorem division_identity_witness:
  "valid \<lparr>digits = [0, 0, 1], sign = - 1\<rparr> \<and> valid \<lparr>digits = [7], sign = 1\<rparr>
   \<and> \<not> is_zero \<lparr>digits = [7], sign = 1\<rparr>
   \<and> (\<exists>q r. operator_div \<lparr>digits = [0, 0, 1], sign = - 1\<rparr> \<lparr>digits = [7], sign = 1\<rparr> = Some (Inr q)
         \<and> operator_mod \<lparr>digits = [0, 0, 1], sign = - 1\<rparr> \<lparr>digits = [7], sign = 1\<rparr> = Some (Inr r)
         \<and> operator_eq \<lparr>digits = [0, 0, 1], sign = - 1\<rparr> (operator_plus (operator_times q \<lparr>digits = [7], sign = 1\<rparr>) r)
         \<and> (sign r = 0 \<or> sign r = sign \<lparr>digits = [0, 0, 1], sign = - 1\<rparr>)
         \<and> \<bar>val q\<bar> = \<bar>val \<lparr>digits = [0, 0, 1], sign = - 1\<rparr>\<bar> div \<bar>val \<lparr>digits = [7], sign = 1\<rparr>\<bar>)"
proof -
  have a: "valid \<lparr>digits = [0, 0, 1], sign = - 1\<rparr>"
    by (simp add: valid_def)
  have b: "valid \<lparr>digits = [7], sign = 1\<rparr>"
    by (simp add: valid_def)
  have n: "\<not> is_zero \<lparr>digits = [7], sign = 1\<rparr>"
    by (simp add: is_zero_def)
  from a b n division_identity [OF a b n] show ?thesis
    by blast
qed

text \<open>
  Claim C9. For valid \<open>a\<close> and \<open>b\<close> with \<open>b\<close> not zero, the remainder \<open>a % b\<close> is
  returned and its absolute value is less than the absolute value of \<open>b\<close>.
\<close>

theorem remainder_below_divisor:
  assumes "valid a" "valid b" "\<not> is_zero b"
  shows "\<exists>r. operator_mod a b = Some (Inr r) \<and> operator_lt (int_abs r) (int_abs b)"
proof -
  have nz: "sign b \<noteq> 0"
    using assms by (simp add: is_zero_def)
  obtain r where r: "operator_mod a b = Some (Inr r)" "valid r" "val r = val a smod val b"
    using operator_mod_correct [OF assms(1,2) nz] by blast
  have "val b \<noteq> 0"
    using assms nz val_sign [of b] by auto
  then have bd: "\<bar>val a\<bar> mod \<bar>val b\<bar> < \<bar>val b\<bar>" "0 \<le> \<bar>val a\<bar> mod \<bar>val b\<bar>"
    by simp_all
  moreover have "\<bar>val r\<bar> = \<bar>val a\<bar> mod \<bar>val b\<bar>"
    unfolding r smod_eq using bd(2) by (cases "val a = 0") (simp_all add: abs_mult)
  ultimately have "val (int_abs r) < val (int_abs b)"
    using r(2) assms(2) by (simp add: int_abs_correct)
  then have "operator_lt (int_abs r) (int_abs b)"
    using r(2) assms(2) by (simp add: operator_lt_valid int_abs_correct)
  with r(1) show ?thesis
    by blast
qed

theorem remainder_below_divisor_witness:
  "valid \<lparr>digits = [5, 4, 3, 2, 1], sign = - 1\<rparr> \<and> valid \<lparr>digits = [1, 2], sign = - 1\<rparr>
   \<and> \<not> is_zero \<lparr>digits = [1, 2], sign = - 1\<rparr>
   \<and> (\<exists>r. operator_mod \<lparr>digits = [5, 4, 3, 2, 1], sign = - 1\<rparr> \<lparr>digits = [1, 2], sign = - 1\<rparr> = Some (Inr r)
         \<and> operator_lt (int_abs r) (int_abs \<lparr>digits = [1, 2], sign = - 1\<rparr>))"
proof -
  have a: "valid \<lparr>digits = [5, 4, 3, 2, 1], sign = - 1\<rparr>"
    by (simp add: valid_def)
  have b: "valid \<lparr>digits = [1, 2], sign = - 1\<rparr>"
    by (simp add: valid_def)
  have n: "\<not> is_zero \<lparr>digits = [1, 2], sign = - 1\<rparr>"
    by (simp add: is_zero_def)
  from a b n remainder_below_divisor [OF a b n] show ?thesis
    by blast
qed

text \<open>
  Claim C7. In \<open>a / b\<close> and \<open>a % b\<close> with valid operands and \<open>b\<close> not zero: when \<open>a\<close>
  is shorter than \<open>b\<close> there is no quotient position, and the operators return zero and
  \<open>a\<close> without entering a loop. Otherwise, with \<open>size\<close> positions, the loop over the
  positions ends in \<open>operator/\<close> and in \<open>operator%\<close>, with the same running remainder.
  For each position \<open>i\<close>:
  \<^item> \<open>rem\<close> is the running remainder with which \<open>operator%\<close> enters the round of
    position \<open>i\<close>, that is the remainder after the \<open>size - 1 - i\<close> rounds before it
    (\<open>mod_loop j\<close> makes the first \<open>j\<close> rounds of the \<open>for\<close> loop);
  \<^item> the divisor \<open>tmp\<close> of that round, after \<open>size - i\<close> erasures, is \<open>shifted b i\<close>;
  \<^item> the inner loop of \<open>operator%\<close> entered with \<open>rem\<close> makes exactly \<open>k\<close> rounds, where
    \<open>k\<close> is at most 9, and the remainder after the round of position \<open>i\<close> is \<open>rem\<close>
    after these \<open>k\<close> subtractions;
  \<^item> the inner loop of \<open>operator/\<close> entered with \<open>rem\<close> makes the same \<open>k\<close> rounds and
    adds \<open>k\<close> to the digit of position \<open>i\<close>, whatever quotient vector it holds;
  \<^item> \<open>k\<close> is the digit that the quotient has at position \<open>i\<close> when the loop has ended.

  Every digit of that quotient is between 0 and 9. The two operators return what is
  left then, without the leading zeros.
\<close>

theorem quotient_digit_at_most_9:
  assumes "valid a" "valid b" "\<not> is_zero b"
  shows "(length (digits a) < length (digits b) \<longrightarrow>
            operator_div a b = Some (Inr (Int_int 0)) \<and> operator_mod a b = Some (Inr a))
    \<and> (length (digits b) \<le> length (digits a) \<longrightarrow>
         (\<exists>result1 num.
            div_loop (length (digits a) - length (digits b) + 1)
              \<lparr>digits = replicate (length (digits a) - length (digits b) + 1) 0 @ digits b, sign = 1\<rparr>
              (add_leading_zeros \<lparr>digits = [], sign = (if sign a = sign b then 1 else - 1)\<rparr>
                 (length (digits a) - length (digits b) + 1))
              (int_abs a) = Some (result1, num)
          \<and> (\<forall>d \<in> set (digits result1). 0 \<le> d \<and> d \<le> 9)
          \<and> mod_loop (length (digits a) - length (digits b) + 1)
              \<lparr>digits = replicate (length (digits a) - length (digits b) + 1) 0 @ digits b, sign = 1\<rparr>
              (int_abs a) = Some num
          \<and> (\<forall>i < length (digits a) - length (digits b) + 1. \<exists>rem k.
                mod_loop (length (digits a) - length (digits b) - i)
                  \<lparr>digits = replicate (length (digits a) - length (digits b) + 1) 0 @ digits b, sign = 1\<rparr>
                  (int_abs a) = Some rem
              \<and> ((\<lambda>t. t\<lparr>digits := tl (digits t)\<rparr>) ^^ (length (digits a) - length (digits b) + 1 - i))
                  \<lparr>digits = replicate (length (digits a) - length (digits b) + 1) 0 @ digits b, sign = 1\<rparr>
                  = shifted b i
              \<and> k \<le> 9
              \<and> inner_rounds (shifted b i) rem k
              \<and> mod_inner (shifted b i) rem = Some (subtracted (shifted b i) k rem)
              \<and> mod_loop (length (digits a) - length (digits b) - i + 1)
                  \<lparr>digits = replicate (length (digits a) - length (digits b) + 1) 0 @ digits b, sign = 1\<rparr>
                  (int_abs a) = Some (subtracted (shifted b i) k rem)
              \<and> (\<forall>R. i < length (digits R) \<longrightarrow>
                    div_inner i (shifted b i) R rem
                      = Some (R\<lparr>digits := (digits R)[i := digits R ! i + int k]\<rparr>,
                              subtracted (shifted b i) k rem))
              \<and> digits result1 ! i = int k)
          \<and> operator_div a b
              = Some (Inr (let r = remove_leading_zeros result1
                           in r\<lparr>sign := (if digits r = [] then 0 else sign r)\<rparr>))
          \<and> operator_mod a b
              = Some (Inr (let r = remove_leading_zeros num
                           in r\<lparr>sign := (if digits r = [] then 0 else sign a)\<rparr>))))"
proof (intro conjI impI)
  have nz: "sign b \<noteq> 0"
    using assms by (simp add: is_zero_def)
  assume "length (digits a) < length (digits b)"
  with nz show "operator_div a b = Some (Inr (Int_int 0))" "operator_mod a b = Some (Inr a)"
    by (simp_all add: operator_div_def operator_mod_def)
next
  assume le: "length (digits b) \<le> length (digits a)"
  define n where "n = length (digits a) - length (digits b) + 1"
  define result where
    "result = add_leading_zeros \<lparr>digits = [], sign = (if sign a = sign b then 1 else - 1)\<rparr> n"
  have nz: "sign b \<noteq> 0"
    using assms by (simp add: is_zero_def)
  have ax: "valid (int_abs a)" "0 \<le> val (int_abs a)"
    using assms by (simp_all add: int_abs_correct)
  have b: "val (int_abs a) < 10 ^ n * \<bar>val b\<bar>"
    using abs_below_shifted [OF assms(1,2) nz le] assms(1) by (simp add: int_abs_correct n_def)
  have dr: "digits result = replicate n 0"
    by (simp add: result_def add_leading_zeros_def)
  have pre: "n \<le> length (digits result)" "\<forall>p<n. digits result ! p = 0"
    by (simp_all add: dr)
  from loop_positions [OF assms(2) nz ax b pre] obtain ds r where
    loop: "div_loop n (shifted b n) result (int_abs a) = Some (result\<lparr>digits := ds\<rparr>, r)"
    and mloop: "mod_loop n (shifted b n) (int_abs a) = Some r"
    and pos: "\<forall>i<n. \<exists>rem k.
             mod_loop (n - 1 - i) (shifted b n) (int_abs a) = Some rem
           \<and> k \<le> 9
           \<and> inner_rounds (shifted b i) rem k
           \<and> mod_inner (shifted b i) rem = Some (subtracted (shifted b i) k rem)
           \<and> mod_loop (Suc (n - 1 - i)) (shifted b n) (int_abs a)
               = Some (subtracted (shifted b i) k rem)
           \<and> (\<forall>R. i < length (digits R) \<longrightarrow>
                  div_inner i (shifted b i) R rem
                    = Some (R\<lparr>digits := (digits R)[i := digits R ! i + int k]\<rparr>,
                            subtracted (shifted b i) k rem))
           \<and> ds ! i = int k"
    by blast
  from div_loop_correct [OF assms(2) nz ax b pre] obtain ds' r' where
    loop': "div_loop n (shifted b n) result (int_abs a) = Some (result\<lparr>digits := ds'\<rparr>, r')"
    and len': "length ds' = n"
    and lo': "\<forall>p<n. 0 \<le> ds' ! p \<and> ds' ! p \<le> 9"
    by (auto simp: dr)
  have "digits (result\<lparr>digits := ds'\<rparr>) = digits (result\<lparr>digits := ds\<rparr>)"
    using loop loop' by simp
  then have same: "ds' = ds"
    by simp
  have "digits_ok ds"
    using lo' len' same by (intro digits_okI) simp
  then have ds: "\<forall>d \<in> set (digits (result\<lparr>digits := ds\<rparr>)). 0 \<le> d \<and> d \<le> 9"
    by (simp add: digits_ok_def)
  have pos': "\<forall>i<n. \<exists>rem k.
             mod_loop (length (digits a) - length (digits b) - i) (shifted b n) (int_abs a) = Some rem
           \<and> ((\<lambda>t. t\<lparr>digits := tl (digits t)\<rparr>) ^^ (n - i)) (shifted b n) = shifted b i
           \<and> k \<le> 9
           \<and> inner_rounds (shifted b i) rem k
           \<and> mod_inner (shifted b i) rem = Some (subtracted (shifted b i) k rem)
           \<and> mod_loop (length (digits a) - length (digits b) - i + 1) (shifted b n) (int_abs a)
               = Some (subtracted (shifted b i) k rem)
           \<and> (\<forall>R. i < length (digits R) \<longrightarrow>
                  div_inner i (shifted b i) R rem
                    = Some (R\<lparr>digits := (digits R)[i := digits R ! i + int k]\<rparr>,
                            subtracted (shifted b i) k rem))
           \<and> digits (result\<lparr>digits := ds\<rparr>) ! i = int k"
  proof (intro allI impI)
    fix i assume i: "i < n"
    have "((\<lambda>t. t\<lparr>digits := tl (digits t)\<rparr>) ^^ (n - i)) (shifted b (i + (n - i))) = shifted b i"
      by (rule tmp_at_position)
    then have "((\<lambda>t. t\<lparr>digits := tl (digits t)\<rparr>) ^^ (n - i)) (shifted b n) = shifted b i"
      using i by simp
    moreover have "n - 1 - i = length (digits a) - length (digits b) - i"
      "Suc (n - 1 - i) = length (digits a) - length (digits b) - i + 1"
      using i by (simp_all add: n_def)
    ultimately show "\<exists>rem k.
             mod_loop (length (digits a) - length (digits b) - i) (shifted b n) (int_abs a) = Some rem
           \<and> ((\<lambda>t. t\<lparr>digits := tl (digits t)\<rparr>) ^^ (n - i)) (shifted b n) = shifted b i
           \<and> k \<le> 9
           \<and> inner_rounds (shifted b i) rem k
           \<and> mod_inner (shifted b i) rem = Some (subtracted (shifted b i) k rem)
           \<and> mod_loop (length (digits a) - length (digits b) - i + 1) (shifted b n) (int_abs a)
               = Some (subtracted (shifted b i) k rem)
           \<and> (\<forall>R. i < length (digits R) \<longrightarrow>
                  div_inner i (shifted b i) R rem
                    = Some (R\<lparr>digits := (digits R)[i := digits R ! i + int k]\<rparr>,
                            subtracted (shifted b i) k rem))
           \<and> digits (result\<lparr>digits := ds\<rparr>) ! i = int k"
      using pos [rule_format, OF i] by simp
  qed
  have long: "\<not> length (digits a) < length (digits b)"
    using le by simp
  have dv: "operator_div a b
      = Some (Inr (let r = remove_leading_zeros (result\<lparr>digits := ds\<rparr>)
                   in r\<lparr>sign := (if digits r = [] then 0 else sign r)\<rparr>))"
    using nz long loop unfolding operator_div_def n_def shifted_def result_def
    by (simp add: Let_def del: div_loop.simps)
  have md: "operator_mod a b
      = Some (Inr (let r' = remove_leading_zeros r
                   in r'\<lparr>sign := (if digits r' = [] then 0 else sign a)\<rparr>))"
    using nz long mloop unfolding operator_mod_def n_def shifted_def
    by (simp add: Let_def del: mod_loop.simps)
  have "div_loop n (shifted b n) result (int_abs a) = Some (result\<lparr>digits := ds\<rparr>, r)
      \<and> (\<forall>d \<in> set (digits (result\<lparr>digits := ds\<rparr>)). 0 \<le> d \<and> d \<le> 9)
      \<and> mod_loop n (shifted b n) (int_abs a) = Some r
      \<and> (\<forall>i<n. \<exists>rem k.
             mod_loop (length (digits a) - length (digits b) - i) (shifted b n) (int_abs a) = Some rem
           \<and> ((\<lambda>t. t\<lparr>digits := tl (digits t)\<rparr>) ^^ (n - i)) (shifted b n) = shifted b i
           \<and> k \<le> 9
           \<and> inner_rounds (shifted b i) rem k
           \<and> mod_inner (shifted b i) rem = Some (subtracted (shifted b i) k rem)
           \<and> mod_loop (length (digits a) - length (digits b) - i + 1) (shifted b n) (int_abs a)
               = Some (subtracted (shifted b i) k rem)
           \<and> (\<forall>R. i < length (digits R) \<longrightarrow>
                  div_inner i (shifted b i) R rem
                    = Some (R\<lparr>digits := (digits R)[i := digits R ! i + int k]\<rparr>,
                            subtracted (shifted b i) k rem))
           \<and> digits (result\<lparr>digits := ds\<rparr>) ! i = int k)
      \<and> operator_div a b
          = Some (Inr (let r = remove_leading_zeros (result\<lparr>digits := ds\<rparr>)
                       in r\<lparr>sign := (if digits r = [] then 0 else sign r)\<rparr>))
      \<and> operator_mod a b
          = Some (Inr (let r' = remove_leading_zeros r
                       in r'\<lparr>sign := (if digits r' = [] then 0 else sign a)\<rparr>))"
    using loop ds mloop pos' dv md by (intro conjI)
  then show "\<exists>result1 num.
            div_loop (length (digits a) - length (digits b) + 1)
              \<lparr>digits = replicate (length (digits a) - length (digits b) + 1) 0 @ digits b, sign = 1\<rparr>
              (add_leading_zeros \<lparr>digits = [], sign = (if sign a = sign b then 1 else - 1)\<rparr>
                 (length (digits a) - length (digits b) + 1))
              (int_abs a) = Some (result1, num)
          \<and> (\<forall>d \<in> set (digits result1). 0 \<le> d \<and> d \<le> 9)
          \<and> mod_loop (length (digits a) - length (digits b) + 1)
              \<lparr>digits = replicate (length (digits a) - length (digits b) + 1) 0 @ digits b, sign = 1\<rparr>
              (int_abs a) = Some num
          \<and> (\<forall>i < length (digits a) - length (digits b) + 1. \<exists>rem k.
                mod_loop (length (digits a) - length (digits b) - i)
                  \<lparr>digits = replicate (length (digits a) - length (digits b) + 1) 0 @ digits b, sign = 1\<rparr>
                  (int_abs a) = Some rem
              \<and> ((\<lambda>t. t\<lparr>digits := tl (digits t)\<rparr>) ^^ (length (digits a) - length (digits b) + 1 - i))
                  \<lparr>digits = replicate (length (digits a) - length (digits b) + 1) 0 @ digits b, sign = 1\<rparr>
                  = shifted b i
              \<and> k \<le> 9
              \<and> inner_rounds (shifted b i) rem k
              \<and> mod_inner (shifted b i) rem = Some (subtracted (shifted b i) k rem)
              \<and> mod_loop (length (digits a) - length (digits b) - i + 1)
                  \<lparr>digits = replicate (length (digits a) - length (digits b) + 1) 0 @ digits b, sign = 1\<rparr>
                  (int_abs a) = Some (subtracted (shifted b i) k rem)
              \<and> (\<forall>R. i < length (digits R) \<longrightarrow>
                    div_inner i (shifted b i) R rem
                      = Some (R\<lparr>digits := (digits R)[i := digits R ! i + int k]\<rparr>,
                              subtracted (shifted b i) k rem))
              \<and> digits result1 ! i = int k)
          \<and> operator_div a b
              = Some (Inr (let r = remove_leading_zeros result1
                           in r\<lparr>sign := (if digits r = [] then 0 else sign r)\<rparr>))
          \<and> operator_mod a b
              = Some (Inr (let r = remove_leading_zeros num
                           in r\<lparr>sign := (if digits r = [] then 0 else sign a)\<rparr>))"
    unfolding n_def [symmetric] result_def [symmetric] shifted_def [of b n, symmetric]
    by (intro exI [of _ "result\<lparr>digits := ds\<rparr>"] exI [of _ r])
qed


theorem quotient_digit_at_most_9_witness:
  "valid \<lparr>digits = [9, 9, 9], sign = 1\<rparr> \<and> valid \<lparr>digits = [1], sign = 1\<rparr>
   \<and> \<not> is_zero \<lparr>digits = [1], sign = 1\<rparr>
   \<and> length (digits \<lparr>digits = [1], sign = 1\<rparr>) \<le> length (digits \<lparr>digits = [9, 9, 9], sign = 1\<rparr>)
   \<and> div_loop 3 \<lparr>digits = [0, 0, 0, 1], sign = 1\<rparr> \<lparr>digits = [0, 0, 0], sign = 1\<rparr>
        \<lparr>digits = [9, 9, 9], sign = 1\<rparr>
      = Some (\<lparr>digits = [9, 9, 9], sign = 1\<rparr>, \<lparr>digits = [], sign = 0\<rparr>)
   \<and> mod_loop 3 \<lparr>digits = [0, 0, 0, 1], sign = 1\<rparr> \<lparr>digits = [9, 9, 9], sign = 1\<rparr>
      = Some \<lparr>digits = [], sign = 0\<rparr>
   \<and> (2::nat) < 3
   \<and> inner_rounds \<lparr>digits = [0, 0, 1], sign = 1\<rparr> \<lparr>digits = [9, 9, 9], sign = 1\<rparr> 9
   \<and> mod_inner \<lparr>digits = [0, 0, 1], sign = 1\<rparr> \<lparr>digits = [9, 9, 9], sign = 1\<rparr>
       = Some (subtracted \<lparr>digits = [0, 0, 1], sign = 1\<rparr> 9 \<lparr>digits = [9, 9, 9], sign = 1\<rparr>)
   \<and> valid \<lparr>digits = [7], sign = - 1\<rparr> \<and> valid \<lparr>digits = [0, 1], sign = 1\<rparr>
   \<and> \<not> is_zero \<lparr>digits = [0, 1], sign = 1\<rparr>
   \<and> length (digits \<lparr>digits = [7], sign = - 1\<rparr>) < length (digits \<lparr>digits = [0, 1], sign = 1\<rparr>)
   \<and> operator_div \<lparr>digits = [7], sign = - 1\<rparr> \<lparr>digits = [0, 1], sign = 1\<rparr> = Some (Inr (Int_int 0))
   \<and> operator_mod \<lparr>digits = [7], sign = - 1\<rparr> \<lparr>digits = [0, 1], sign = 1\<rparr>
       = Some (Inr \<lparr>digits = [7], sign = - 1\<rparr>)"
proof -
  have a: "valid \<lparr>digits = [9, 9, 9], sign = 1\<rparr>"
    by (simp add: valid_def)
  have b: "valid \<lparr>digits = [1], sign = 1\<rparr>"
    by (simp add: valid_def)
  have n: "\<not> is_zero \<lparr>digits = [1], sign = 1\<rparr>"
    by (simp add: is_zero_def)
  have l: "length (digits \<lparr>digits = [1], sign = 1\<rparr>) \<le> length (digits \<lparr>digits = [9, 9, 9], sign = 1\<rparr>)"
    by simp
  have d: "div_loop 3 \<lparr>digits = [0, 0, 0, 1], sign = 1\<rparr> \<lparr>digits = [0, 0, 0], sign = 1\<rparr>
        \<lparr>digits = [9, 9, 9], sign = 1\<rparr>
      = Some (\<lparr>digits = [9, 9, 9], sign = 1\<rparr>, \<lparr>digits = [], sign = 0\<rparr>)"
    by code_simp
  have e: "length (digits \<lparr>digits = [9, 9, 9], sign = 1\<rparr>) - length (digits \<lparr>digits = [1], sign = 1\<rparr>) + 1 = 3"
    "length (digits \<lparr>digits = [9, 9, 9], sign = 1\<rparr>) - length (digits \<lparr>digits = [1], sign = 1\<rparr>) - 2 = 0"
    "replicate 3 0 @ digits \<lparr>digits = [1], sign = 1\<rparr> = [0, 0, 0, 1::int]"
    "add_leading_zeros \<lparr>digits = [], sign = (if sign \<lparr>digits = [9, 9, 9], sign = 1\<rparr> = sign \<lparr>digits = [1], sign = 1\<rparr> then 1 else - 1)\<rparr> 3
       = \<lparr>digits = [0, 0, 0], sign = 1\<rparr>"
    "int_abs \<lparr>digits = [9, 9, 9], sign = 1\<rparr> = \<lparr>digits = [9, 9, 9], sign = 1\<rparr>"
    "shifted \<lparr>digits = [1], sign = 1\<rparr> 2 = \<lparr>digits = [0, 0, 1], sign = 1\<rparr>"
    by (simp_all add: add_leading_zeros_def int_abs_def shifted_def numeral_3_eq_3 numeral_2_eq_2)
  from quotient_digit_at_most_9 [OF a b n, THEN conjunct2, THEN mp, OF l, unfolded e]
  obtain result1 num where
    dl: "div_loop 3 \<lparr>digits = [0, 0, 0, 1], sign = 1\<rparr> \<lparr>digits = [0, 0, 0], sign = 1\<rparr>
          \<lparr>digits = [9, 9, 9], sign = 1\<rparr> = Some (result1, num)"
    and ml: "mod_loop 3 \<lparr>digits = [0, 0, 0, 1], sign = 1\<rparr> \<lparr>digits = [9, 9, 9], sign = 1\<rparr> = Some num"
    and ps: "\<forall>i<3. \<exists>rm k.
        mod_loop (length (digits \<lparr>digits = [9, 9, 9], sign = 1\<rparr>)
                   - length (digits \<lparr>digits = [1], sign = 1\<rparr>) - i)
          \<lparr>digits = [0, 0, 0, 1], sign = 1\<rparr> \<lparr>digits = [9, 9, 9], sign = 1\<rparr> = Some rm
      \<and> k \<le> 9
      \<and> inner_rounds (shifted \<lparr>digits = [1], sign = 1\<rparr> i) rm k
      \<and> mod_inner (shifted \<lparr>digits = [1], sign = 1\<rparr> i) rm
          = Some (subtracted (shifted \<lparr>digits = [1], sign = 1\<rparr> i) k rm)
      \<and> (\<forall>R. i < length (digits R) \<longrightarrow>
            div_inner i (shifted \<lparr>digits = [1], sign = 1\<rparr> i) R rm
              = Some (R\<lparr>digits := (digits R)[i := digits R ! i + int k]\<rparr>,
                      subtracted (shifted \<lparr>digits = [1], sign = 1\<rparr> i) k rm))
      \<and> digits result1 ! i = int k"
    by blast
  from dl d have r1: "result1 = \<lparr>digits = [9, 9, 9], sign = 1\<rparr>" "num = \<lparr>digits = [], sign = 0\<rparr>"
    by simp_all
  have two: "(2::nat) < 3"
    by simp
  from ps [rule_format, OF two, unfolded e r1] obtain rm k where
    p: "mod_loop 0 \<lparr>digits = [0, 0, 0, 1], sign = 1\<rparr> \<lparr>digits = [9, 9, 9], sign = 1\<rparr> = Some rm"
      "inner_rounds \<lparr>digits = [0, 0, 1], sign = 1\<rparr> rm k"
      "mod_inner \<lparr>digits = [0, 0, 1], sign = 1\<rparr> rm
        = Some (subtracted \<lparr>digits = [0, 0, 1], sign = 1\<rparr> k rm)"
      "digits \<lparr>digits = [9, 9, 9 :: int], sign = 1 :: int\<rparr> ! 2 = int k"
    by blast
  from p(1) have rm: "rm = \<lparr>digits = [9, 9, 9], sign = 1\<rparr>"
    by simp
  from p(4) have k: "k = 9"
    by simp
  note q = p(2,3) [unfolded rm k]
  have a': "valid \<lparr>digits = [7], sign = - 1\<rparr>"
    by (simp add: valid_def)
  have b': "valid \<lparr>digits = [0, 1], sign = 1\<rparr>"
    by (simp add: valid_def)
  have n': "\<not> is_zero \<lparr>digits = [0, 1], sign = 1\<rparr>"
    by (simp add: is_zero_def)
  have l': "length (digits \<lparr>digits = [7], sign = - 1\<rparr>) < length (digits \<lparr>digits = [0, 1], sign = 1\<rparr>)"
    by simp
  from quotient_digit_at_most_9 [OF a' b' n'] l'
  have s: "operator_div \<lparr>digits = [7], sign = - 1\<rparr> \<lparr>digits = [0, 1], sign = 1\<rparr> = Some (Inr (Int_int 0))"
    "operator_mod \<lparr>digits = [7], sign = - 1\<rparr> \<lparr>digits = [0, 1], sign = 1\<rparr>
       = Some (Inr \<lparr>digits = [7], sign = - 1\<rparr>)"
    by blast+
  from a b n l d ml [unfolded r1] two q a' b' n' l' s show ?thesis
    by (intro conjI)
qed

section \<open>The fast increment and decrement\<close>

text \<open>
  Claim C8. For a valid \<open>a\<close>, \<open>++a\<close> returns the object that \<open>a + 1\<close> returns and \<open>--a\<close>
  the object that \<open>a - 1\<close> returns. Zero goes to 1 and to -1; decrementing 1 and
  incrementing -1 give the object without digits and with sign 0.
\<close>

theorem increment_is_plus_one:
  assumes "valid a"
  shows "operator_inc a = Some (operator_plus a (Int_int 1))
       \<and> operator_dec a = Some (operator_minus a (Int_int 1))
       \<and> operator_inc Int_default = Some \<lparr>digits = [1], sign = 1\<rparr>
       \<and> operator_dec Int_default = Some \<lparr>digits = [1], sign = - 1\<rparr>
       \<and> operator_dec (Int_int 1) = Some \<lparr>digits = [], sign = 0\<rparr>
       \<and> operator_inc (Int_int (- 1)) = Some \<lparr>digits = [], sign = 0\<rparr>"
proof -
  obtain r where r: "operator_inc a = Some r" "valid r" "val r = val a + 1"
    using operator_inc_correct [OF assms] by blast
  have "r = operator_plus a (Int_int 1)"
    using r assms by (intro val_inj) (simp_all add: operator_plus_correct)
  with r have 1: "operator_inc a = Some (operator_plus a (Int_int 1))"
    by simp
  obtain d where d: "operator_dec a = Some d" "valid d" "val d = val a - 1"
    using operator_dec_correct [OF assms] by blast
  have "d = operator_minus a (Int_int 1)"
    using d assms by (intro val_inj) (simp_all add: operator_minus_correct)
  with d have 2: "operator_dec a = Some (operator_minus a (Int_int 1))"
    by simp
  have 3: "operator_inc Int_default = Some \<lparr>digits = [1], sign = 1\<rparr>"
    by code_simp
  have 4: "operator_dec Int_default = Some \<lparr>digits = [1], sign = - 1\<rparr>"
    by code_simp
  have 5: "operator_dec (Int_int 1) = Some \<lparr>digits = [], sign = 0\<rparr>"
    by code_simp
  have 6: "operator_inc (Int_int (- 1)) = Some \<lparr>digits = [], sign = 0\<rparr>"
    by code_simp
  from 1 2 3 4 5 6 show ?thesis
    by blast
qed

theorem increment_is_plus_one_witness:
  "valid \<lparr>digits = [9, 9, 9], sign = 1\<rparr>
   \<and> operator_inc \<lparr>digits = [9, 9, 9], sign = 1\<rparr>
       = Some (operator_plus \<lparr>digits = [9, 9, 9], sign = 1\<rparr> (Int_int 1))
   \<and> operator_plus \<lparr>digits = [9, 9, 9], sign = 1\<rparr> (Int_int 1) = \<lparr>digits = [0, 0, 0, 1], sign = 1\<rparr>
   \<and> operator_dec \<lparr>digits = [9, 9, 9], sign = 1\<rparr>
       = Some (operator_minus \<lparr>digits = [9, 9, 9], sign = 1\<rparr> (Int_int 1))"
proof -
  have a: "valid \<lparr>digits = [9, 9, 9], sign = 1\<rparr>"
    by (simp add: valid_def)
  have p: "operator_plus \<lparr>digits = [9, 9, 9], sign = 1\<rparr> (Int_int 1) = \<lparr>digits = [0, 0, 0, 1], sign = 1\<rparr>"
    by code_simp
  from a p increment_is_plus_one [OF a] show ?thesis
    by blast
qed

section \<open>Parsing and rendering\<close>

text \<open>
  Claim C6. Parsing the rendering of a valid \<open>a\<close> returns \<open>a\<close>; the rendering of the
  parse of a literal (an optional \<open>+\<close> or \<open>-\<close>, then one or more decimal digits) is its
  normalised canonical form; \<open>+007\<close> parses and renders as \<open>7\<close>.
\<close>

theorem parse_render_round_trip:
  "(valid a \<longrightarrow> Int_chars (operator_out a) = Inr a)
   \<and> (literal s \<longrightarrow> (\<exists>x. Int_chars s = Inr x \<and> operator_out x = canonical s))
   \<and> (\<exists>x. Int_chars ''+007'' = Inr x \<and> operator_out x = ''7'')"
proof (intro conjI impI)
  assume "valid a"
  then show "Int_chars (operator_out a) = Inr a"
    by (rule parse_rendering)
next
  assume "literal s"
  then show "\<exists>x. Int_chars s = Inr x \<and> operator_out x = canonical s"
    using render_parsed_literal by blast
next
  have "Int_chars ''+007'' = Inr \<lparr>digits = [7], sign = 1\<rparr>"
    by code_simp
  moreover have "operator_out \<lparr>digits = [7], sign = 1\<rparr> = ''7''"
    by code_simp
  ultimately show "\<exists>x. Int_chars ''+007'' = Inr x \<and> operator_out x = ''7''"
    by simp
qed

theorem parse_render_round_trip_witness:
  "valid \<lparr>digits = [0, 4, 2], sign = - 1\<rparr>
   \<and> Int_chars (operator_out \<lparr>digits = [0, 4, 2], sign = - 1\<rparr>) = Inr \<lparr>digits = [0, 4, 2], sign = - 1\<rparr>
   \<and> operator_out \<lparr>digits = [0, 4, 2], sign = - 1\<rparr> = ''-240''
   \<and> literal ''-0042''
   \<and> (\<exists>x. Int_chars ''-0042'' = Inr x \<and> operator_out x = canonical ''-0042'')
   \<and> canonical ''-0042'' = ''-42''"
proof -
  have a: "valid \<lparr>digits = [0, 4, 2], sign = - 1\<rparr>"
    by (simp add: valid_def)
  have l: "literal ''-0042''"
    by (simp add: literal_def is_digit_def)
  have o: "operator_out \<lparr>digits = [0, 4, 2], sign = - 1\<rparr> = ''-240''"
    by code_simp
  have c: "canonical ''-0042'' = ''-42''"
    by (simp add: canonical_def)
  from parse_render_round_trip [of "\<lparr>digits = [0, 4, 2], sign = - 1\<rparr>" "''-0042''"] a l o c
  show ?thesis
    by blast
qed

section \<open>Power with a negative exponent\<close>

lemma is_odd_valid:
  assumes "valid e"
  shows "is_odd e = Some (odd (val e))"
proof (cases "sign e = 0")
  case True
  then show ?thesis
    by (simp add: is_odd_def is_zero_def val_def)
next
  case False
  with assms obtain d ds where ds: "digits e = d # ds"
    by (cases "digits e") (auto simp: valid_alt)
  have "sign e = 1 \<or> sign e = - 1"
    using False valid_sign_cases [OF assms] by auto
  then have "odd (val e) \<longleftrightarrow> odd d"
    by (auto simp: val_def ds)
  moreover have "(d AND 1 = 1) \<longleftrightarrow> odd d"
    by (simp add: and_one_eq odd_iff_mod_2_eq_one)
  ultimately show ?thesis
    using False ds by (simp add: is_odd_def is_zero_def)
qed

lemma unit_magnitude_iff:
  assumes "valid b"
  shows "length (digits b) = 1 \<and> digits b ! 0 = 1 \<longleftrightarrow> \<bar>val b\<bar> = 1"
proof
  assume "length (digits b) = 1 \<and> digits b ! 0 = 1"
  then have "digits b = [1]"
    by (cases "digits b") auto
  then show "\<bar>val b\<bar> = 1"
    using assms by (simp add: val_abs)
next
  assume "\<bar>val b\<bar> = 1"
  then have "digits_val (digits b) = digits_val [1]"
    using assms by (simp add: val_abs)
  then have "digits b = [1]"
    using assms by (intro digits_val_inj) (auto simp: valid_alt)
  then show "length (digits b) = 1 \<and> digits b ! 0 = 1"
    by simp
qed

text \<open>
  Claim C3, as the code has it. For a valid base and a valid negative exponent, \<open>pow\<close>
  looks at the magnitude of the base first: when it is 1 the result is 1, or -1 for a
  negative base and an odd exponent. Otherwise \<open>pow\<close> fails with the domain error when
  the base is zero and returns zero when it is not. The modulus is not looked at.
\<close>

theorem pow_negative_exponent:
  assumes "valid base" "valid exp" "is_negative exp"
  shows "int_pow base exp md =
     (if \<bar>val base\<bar> = 1
      then Some (Inr (Int_int (if sign base = - 1 \<and> odd (val exp) then - 1 else 1)))
      else if is_zero base then Some (Inl DomainError)
      else Some (Inr (Int_int 0)))"
  using assms(3) unit_magnitude_iff [OF assms(1)]
  by (simp add: int_pow_def is_odd_valid [OF assms(2)])

theorem pow_negative_exponent_witness:
  "valid \<lparr>digits = [5], sign = 1\<rparr> \<and> valid \<lparr>digits = [3], sign = - 1\<rparr>
   \<and> is_negative \<lparr>digits = [3], sign = - 1\<rparr>
   \<and> int_pow \<lparr>digits = [5], sign = 1\<rparr> \<lparr>digits = [3], sign = - 1\<rparr> Int_default
       = Some (Inr \<lparr>digits = [], sign = 0\<rparr>)
   \<and> int_pow Int_default \<lparr>digits = [3], sign = - 1\<rparr> Int_default = Some (Inl DomainError)"
proof -
  have b: "valid \<lparr>digits = [5], sign = 1\<rparr>"
    by (simp add: valid_def)
  have e: "valid \<lparr>digits = [3], sign = - 1\<rparr>"
    by (simp add: valid_def)
  have n: "is_negative \<lparr>digits = [3], sign = - 1\<rparr>"
    by (simp add: is_negative_def)
  have "int_pow \<lparr>digits = [5], sign = 1\<rparr> \<lparr>digits = [3], sign = - 1\<rparr> Int_default
       = Some (Inr \<lparr>digits = [], sign = 0\<rparr>)"
    using pow_negative_exponent [OF b e n, of Int_default]
    by (simp add: val_def is_zero_def Int_default_def)
  moreover have "int_pow Int_default \<lparr>digits = [3], sign = - 1\<rparr> Int_default = Some (Inl DomainError)"
    using pow_negative_exponent [OF valid_Int_default(1) e n, of Int_default]
    by (simp add: is_zero_def Int_default_def val_def)
  ultimately show ?thesis
    using b e n by blast
qed

text \<open>
  Claim C3 as stated fails: the base 1 is not zero, the exponent -1 is negative, and
  \<open>pow\<close> returns 1, not zero.
\<close>

theorem pow_unit_base_counterexample:
  "valid (Int_int 1) \<and> valid (Int_int (- 1)) \<and> is_negative (Int_int (- 1))
   \<and> \<not> is_zero (Int_int 1)
   \<and> int_pow (Int_int 1) (Int_int (- 1)) (Int_int 0) = Some (Inr (Int_int 1))
   \<and> Int_int 1 \<noteq> Int_int 0"
  by code_simp

section \<open>Greatest common divisor and least common multiple\<close>

lemma gcd_smod: "gcd b (a smod b) = gcd a b" for a b :: int
proof -
  have "gcd b (a smod b) = gcd \<bar>b\<bar> \<bar>sgn a * (\<bar>a\<bar> mod \<bar>b\<bar>)\<bar>"
    by (simp add: smod_eq)
  also have "\<bar>sgn a * (\<bar>a\<bar> mod \<bar>b\<bar>)\<bar> = \<bar>\<bar>a\<bar> mod \<bar>b\<bar>\<bar>"
    by (cases "a = 0") (simp_all add: abs_mult)
  also have "gcd \<bar>b\<bar> \<bar>\<bar>a\<bar> mod \<bar>b\<bar>\<bar> = gcd \<bar>b\<bar> (\<bar>a\<bar> mod \<bar>b\<bar>)"
    by simp
  also have "\<dots> = gcd \<bar>a\<bar> \<bar>b\<bar>"
    by (rule gcd_red_int [symmetric])
  finally show ?thesis
    by simp
qed

lemma abs_smod_less: "b \<noteq> 0 \<Longrightarrow> \<bar>a smod b\<bar> < \<bar>b\<bar>" for a b :: int
proof -
  assume "b \<noteq> 0"
  then have "0 \<le> \<bar>a\<bar> mod \<bar>b\<bar>" "\<bar>a\<bar> mod \<bar>b\<bar> < \<bar>b\<bar>"
    by simp_all
  then show ?thesis
    by (cases "a = 0") (simp_all add: smod_eq abs_mult)
qed

lemma valid_nonzero_val: "valid x \<Longrightarrow> sign x \<noteq> 0 \<longleftrightarrow> val x \<noteq> 0"
  using val_sign [of x] by (auto simp: sgn_if split: if_splits)

lemma gcd_loop_correct:
  "valid a \<Longrightarrow> valid b \<Longrightarrow>
   \<exists>g. gcd_loop a b = Some (Inr g) \<and> valid g \<and> \<bar>val g\<bar> = gcd (val a) (val b)"
proof (induction "nat \<bar>val b\<bar>" arbitrary: a b rule: less_induct)
  case less
  show ?case
  proof (cases "is_zero b")
    case True
    then have "gcd_loop a b = Some (Inr a)"
      by (subst gcd_loop.simps) simp
    moreover have "val b = 0"
      using True by (simp add: is_zero_def val_def)
    ultimately show ?thesis
      using less.prems by simp
  next
    case False
    then have nz: "sign b \<noteq> 0"
      by (simp add: is_zero_def)
    then have bn: "val b \<noteq> 0"
      using less.prems by (simp add: valid_nonzero_val)
    obtain r where r: "operator_mod a b = Some (Inr r)" "valid r" "val r = val a smod val b"
      using operator_mod_correct [OF less.prems nz] by blast
    have "nat \<bar>val r\<bar> < nat \<bar>val b\<bar>"
      using abs_smod_less [OF bn, of "val a"] by (simp add: r(3))
    from less.hyps [OF this less.prems(2) r(2)] obtain g where
      g: "gcd_loop b r = Some (Inr g)" "valid g" "\<bar>val g\<bar> = gcd (val b) (val r)"
      by blast
    have "gcd_loop a b = gcd_loop b r"
      using False r(1) by (subst gcd_loop.simps) simp
    moreover have "gcd (val b) (val r) = gcd (val a) (val b)"
      unfolding r(3) by (rule gcd_smod)
    ultimately show ?thesis
      using g by simp
  qed
qed

lemma operator_mod_exact:
  assumes "valid a" "valid g" "sign g \<noteq> 0" "val g dvd val a"
  shows "operator_mod a g = Some (Inr (Int_int 0))"
proof -
  obtain r where r: "operator_mod a g = Some (Inr r)" "valid r" "val r = val a smod val g"
    using operator_mod_correct [OF assms(1,2,3)] by blast
  have "\<bar>val g\<bar> dvd \<bar>val a\<bar>"
    using assms(4) by simp
  then have "\<bar>val a\<bar> mod \<bar>val g\<bar> = 0"
    by (simp add: mod_eq_0_iff_dvd)
  then have "val r = 0"
    by (simp add: r(3) smod_eq)
  then have "r = Int_default"
    using r(2) by (intro val_inj) simp_all
  with r(1) show ?thesis
    by simp
qed

lemma sdiv_exact:
  fixes n g :: int
  assumes "g dvd n"
  shows "n sdiv g * g = n"
proof -
  have "\<bar>g\<bar> dvd \<bar>n\<bar>"
    using assms by simp
  then have e: "\<bar>n\<bar> div \<bar>g\<bar> * \<bar>g\<bar> = \<bar>n\<bar>"
    by (rule dvd_div_mult_self)
  have s: "sgn g * g = \<bar>g\<bar>"
    by (simp add: abs_sgn mult.commute)
  have "n sdiv g * g = sgn n * (\<bar>n\<bar> div \<bar>g\<bar> * (sgn g * g))"
    by (simp add: sdiv_eq mult_ac)
  also have "\<dots> = sgn n * \<bar>n\<bar>"
    by (simp only: s e)
  also have "\<dots> = n"
    by (rule mult_sgn_abs)
  finally show ?thesis .
qed

text \<open>
  Claim C4, for the operands on which the code is written to meet it. For valid \<open>a\<close> and
  \<open>b\<close>, \<open>gcd\<close> returns a valid \<open>g\<close> whose value divides those of \<open>a\<close> and \<open>b\<close>; \<open>g\<close> is
  zero exactly when both are. When \<open>g\<close> is not zero, \<open>a % g\<close> and \<open>b % g\<close> are zero; when it
  is, both fail with the division by zero. For \<open>a\<close> and \<open>b\<close> not zero and of the same
  sign, \<open>lcm\<close> returns \<open>l\<close> with \<open>l * g == abs(a * b)\<close>.
\<close>

theorem gcd_divides_lcm_product:
  assumes "valid a" "valid b"
  shows "\<exists>g. int_gcd a b = Some (Inr g) \<and> valid g
      \<and> val g dvd val a \<and> val g dvd val b
      \<and> (is_zero g \<longleftrightarrow> is_zero a \<and> is_zero b)
      \<and> (\<not> is_zero g \<longrightarrow>
            operator_mod a g = Some (Inr (Int_int 0)) \<and> operator_mod b g = Some (Inr (Int_int 0)))
      \<and> (is_zero g \<longrightarrow>
            operator_mod a g = Some (Inl DivideByZero) \<and> operator_mod b g = Some (Inl DivideByZero))
      \<and> (\<not> is_zero a \<and> \<not> is_zero b \<and> sign a = sign b \<longrightarrow>
            (\<exists>l. int_lcm a b = Some (Inr l)
               \<and> operator_eq (operator_times l g) (int_abs (operator_times a b))))"
proof -
  obtain g where g: "int_gcd a b = Some (Inr g)" "valid g" "\<bar>val g\<bar> = gcd (val a) (val b)"
    using gcd_loop_correct [OF assms] by (auto simp: int_gcd_def)
  have "\<bar>val g\<bar> dvd val a" "\<bar>val g\<bar> dvd val b"
    unfolding g(3) by simp_all
  then have d: "val g dvd val a" "val g dvd val b"
    by simp_all
  have "val g = 0 \<longleftrightarrow> val a = 0 \<and> val b = 0"
    using g(3) by (metis abs_eq_0 gcd_eq_0_iff)
  then have z: "is_zero g \<longleftrightarrow> is_zero a \<and> is_zero b"
    using valid_nonzero_val [OF g(2)] valid_nonzero_val [OF assms(1)]
      valid_nonzero_val [OF assms(2)] by (simp add: is_zero_def) blast
  have m: "\<not> is_zero g \<longrightarrow>
      operator_mod a g = Some (Inr (Int_int 0)) \<and> operator_mod b g = Some (Inr (Int_int 0))"
    using operator_mod_exact [OF assms(1) g(2) _ d(1)] operator_mod_exact [OF assms(2) g(2) _ d(2)]
    by (simp add: is_zero_def)
  have e: "is_zero g \<longrightarrow>
      operator_mod a g = Some (Inl DivideByZero) \<and> operator_mod b g = Some (Inl DivideByZero)"
    by (simp add: is_zero_def operator_mod_def)
  have l: "\<exists>l. int_lcm a b = Some (Inr l)
               \<and> operator_eq (operator_times l g) (int_abs (operator_times a b))"
    if nz: "\<not> is_zero a \<and> \<not> is_zero b \<and> sign a = sign b"
  proof -
    have gz: "sign g \<noteq> 0"
      using z nz by (simp add: is_zero_def)
    have ab: "valid (operator_times a b)" "val (operator_times a b) = val a * val b"
      using assms by (simp_all add: operator_times_correct)
    obtain q where q: "operator_div (operator_times a b) g = Some (Inr q)" "valid q"
      "val q = val (operator_times a b) sdiv val g"
      using operator_div_correct [OF ab(1) g(2) gz] by blast
    have lcm: "int_lcm a b = Some (Inr q)"
      using nz g(1) q(1) by (simp add: int_lcm_def)
    have "val g dvd val a * val b"
      using d(1) by simp
    then have "val (operator_times q g) = val (operator_times a b)"
      using q(2,3) g(2) ab(2) by (simp add: operator_times_correct sdiv_exact)
    then have eq: "operator_times q g = operator_times a b"
      using q(2) g(2) ab(1) by (intro val_inj) (simp_all add: operator_times_correct)
    have "sgn (val a) = sgn (val b)"
      using nz assms by (simp add: val_sign)
    then have "0 \<le> val a * val b"
      by (metis mult_sgn_abs abs_ge_zero mult.assoc mult.left_commute zero_le_mult_iff zero_le_square
          sgn_mult)
    then have "val (int_abs (operator_times a b)) = val (operator_times a b)"
      using ab by (simp add: int_abs_correct)
    then have "int_abs (operator_times a b) = operator_times a b"
      using ab(1) by (intro val_inj) (simp_all add: int_abs_correct)
    with lcm eq show ?thesis
      by (simp add: operator_eq_iff)
  qed
  from g(1,2) d z m e l show ?thesis
    by blast
qed

theorem gcd_divides_lcm_product_witness:
  "valid \<lparr>digits = [2, 1], sign = 1\<rparr> \<and> valid \<lparr>digits = [8, 1], sign = 1\<rparr>
   \<and> int_gcd \<lparr>digits = [2, 1], sign = 1\<rparr> \<lparr>digits = [8, 1], sign = 1\<rparr>
        = Some (Inr \<lparr>digits = [6], sign = 1\<rparr>)
   \<and> \<not> is_zero \<lparr>digits = [6], sign = 1\<rparr>
   \<and> operator_mod \<lparr>digits = [2, 1], sign = 1\<rparr> \<lparr>digits = [6], sign = 1\<rparr> = Some (Inr (Int_int 0))
   \<and> operator_mod \<lparr>digits = [8, 1], sign = 1\<rparr> \<lparr>digits = [6], sign = 1\<rparr> = Some (Inr (Int_int 0))
   \<and> \<not> is_zero \<lparr>digits = [2, 1], sign = 1\<rparr> \<and> \<not> is_zero \<lparr>digits = [8, 1], sign = 1\<rparr>
   \<and> sign \<lparr>digits = [2, 1], sign = 1\<rparr> = sign \<lparr>digits = [8, 1], sign = 1\<rparr>
   \<and> (\<exists>l. int_lcm \<lparr>digits = [2, 1], sign = 1\<rparr> \<lparr>digits = [8, 1], sign = 1\<rparr> = Some (Inr l)
         \<and> operator_eq (operator_times l \<lparr>digits = [6], sign = 1\<rparr>)
              (int_abs (operator_times \<lparr>digits = [2, 1], sign = 1\<rparr> \<lparr>digits = [8, 1], sign = 1\<rparr>)))
   \<and> valid \<lparr>digits = [], sign = 0\<rparr>
   \<and> int_gcd \<lparr>digits = [], sign = 0\<rparr> \<lparr>digits = [], sign = 0\<rparr> = Some (Inr \<lparr>digits = [], sign = 0\<rparr>)
   \<and> is_zero \<lparr>digits = [], sign = 0\<rparr>
   \<and> operator_mod \<lparr>digits = [], sign = 0\<rparr> \<lparr>digits = [], sign = 0\<rparr> = Some (Inl DivideByZero)"
proof -
  have a: "valid \<lparr>digits = [2, 1], sign = 1\<rparr>"
    by (simp add: valid_def)
  have b: "valid \<lparr>digits = [8, 1], sign = 1\<rparr>"
    by (simp add: valid_def)
  have g: "int_gcd \<lparr>digits = [2, 1], sign = 1\<rparr> \<lparr>digits = [8, 1], sign = 1\<rparr>
        = Some (Inr \<lparr>digits = [6], sign = 1\<rparr>)"
    by code_simp
  have n: "\<not> is_zero \<lparr>digits = [6], sign = 1\<rparr>" "\<not> is_zero \<lparr>digits = [2, 1], sign = 1\<rparr>"
    "\<not> is_zero \<lparr>digits = [8, 1], sign = 1\<rparr>"
    "sign \<lparr>digits = [2, 1], sign = 1\<rparr> = sign \<lparr>digits = [8, 1], sign = 1\<rparr>"
    by (simp_all add: is_zero_def)
  from gcd_divides_lcm_product [OF a b] g n
  have p: "operator_mod \<lparr>digits = [2, 1], sign = 1\<rparr> \<lparr>digits = [6], sign = 1\<rparr> = Some (Inr (Int_int 0))"
    "operator_mod \<lparr>digits = [8, 1], sign = 1\<rparr> \<lparr>digits = [6], sign = 1\<rparr> = Some (Inr (Int_int 0))"
    "\<exists>l. int_lcm \<lparr>digits = [2, 1], sign = 1\<rparr> \<lparr>digits = [8, 1], sign = 1\<rparr> = Some (Inr l)
         \<and> operator_eq (operator_times l \<lparr>digits = [6], sign = 1\<rparr>)
              (int_abs (operator_times \<lparr>digits = [2, 1], sign = 1\<rparr> \<lparr>digits = [8, 1], sign = 1\<rparr>))"
    by auto
  have z: "valid \<lparr>digits = [], sign = 0\<rparr>"
    by (simp add: valid_def)
  have gz: "int_gcd \<lparr>digits = [], sign = 0\<rparr> \<lparr>digits = [], sign = 0\<rparr> = Some (Inr \<lparr>digits = [], sign = 0\<rparr>)"
    by code_simp
  have iz: "is_zero \<lparr>digits = [], sign = 0\<rparr>"
    by (simp add: is_zero_def)
  from gcd_divides_lcm_product [OF z z] gz iz
  have q: "operator_mod \<lparr>digits = [], sign = 0\<rparr> \<lparr>digits = [], sign = 0\<rparr> = Some (Inl DivideByZero)"
    by auto
  from a b g n p z gz iz q show ?thesis
    by (intro conjI)
qed

text \<open>
  Claim C4 as stated fails for 0 and 0: \<open>gcd\<close> is 0, and the remainder of 0 by it is not
  zero but the division by zero, which \<open>operator%\<close> tests for first.
\<close>

theorem gcd_of_zeros_counterexample:
  "int_gcd (Int_int 0) (Int_int 0) = Some (Inr (Int_int 0))
   \<and> is_zero (Int_int 0)
   \<and> operator_mod (Int_int 0) (Int_int 0) = Some (Inl DivideByZero)
   \<and> operator_mod (Int_int 0) (Int_int 0) \<noteq> Some (Inr (Int_int 0))"
  by code_simp

text \<open>
  The signs of \<open>gcd\<close> and \<open>lcm\<close>. The doc comments promise the greatest common divisor
  and the least common multiple, but neither function normalises a sign: \<open>gcd\<close> returns
  the last nonzero remainder of the Euclidean loop with whatever sign it has, and \<open>lcm\<close>
  divides \<open>int1 * int2\<close> by it. For 3 and -5 \<open>gcd\<close> is 1, for -3 and 5 it is -1, for -4
  and -6 it is -2. For -4 and 6, \<open>gcd\<close> is 2 and \<open>lcm\<close> is -12: their product is -24,
  where \<open>abs(a * b)\<close> is 24.
\<close>

lemma gcd_lcm_signs:
  "int_gcd \<lparr>digits = [3], sign = 1\<rparr> \<lparr>digits = [5], sign = - 1\<rparr>
        = Some (Inr \<lparr>digits = [1], sign = 1\<rparr>)
   \<and> int_gcd \<lparr>digits = [3], sign = - 1\<rparr> \<lparr>digits = [5], sign = 1\<rparr>
        = Some (Inr \<lparr>digits = [1], sign = - 1\<rparr>)
   \<and> int_gcd \<lparr>digits = [4], sign = - 1\<rparr> \<lparr>digits = [6], sign = - 1\<rparr>
        = Some (Inr \<lparr>digits = [2], sign = - 1\<rparr>)
   \<and> int_gcd \<lparr>digits = [4], sign = - 1\<rparr> \<lparr>digits = [6], sign = 1\<rparr>
        = Some (Inr \<lparr>digits = [2], sign = 1\<rparr>)
   \<and> int_lcm \<lparr>digits = [4], sign = - 1\<rparr> \<lparr>digits = [6], sign = 1\<rparr>
        = Some (Inr \<lparr>digits = [2, 1], sign = - 1\<rparr>)
   \<and> operator_times \<lparr>digits = [2, 1], sign = - 1\<rparr> \<lparr>digits = [2], sign = 1\<rparr>
        = \<lparr>digits = [4, 2], sign = - 1\<rparr>
   \<and> int_abs (operator_times \<lparr>digits = [4], sign = - 1\<rparr> \<lparr>digits = [6], sign = 1\<rparr>)
        = \<lparr>digits = [4, 2], sign = 1\<rparr>
   \<and> \<not> operator_eq (operator_times \<lparr>digits = [2, 1], sign = - 1\<rparr> \<lparr>digits = [2], sign = 1\<rparr>)
         (int_abs (operator_times \<lparr>digits = [4], sign = - 1\<rparr> \<lparr>digits = [6], sign = 1\<rparr>))"
  by code_simp

section \<open>The square root of 24\<close>

lemma sqrt_loop_step:
  assumes "\<not> operator_eq cur pre" "operator_div integer cur = Some (Inr q)"
    "operator_div (operator_plus cur q) (Int_int 2) = Some (Inr nxt)"
  shows "sqrt_loop integer cur pre = sqrt_loop integer nxt cur"
  using assms by (subst sqrt_loop.simps) simp

text \<open>
  For 24 the iterates 4 and 5 follow each other: \<open>(4 + 24 / 4) / 2 = 5\<close> and
  \<open>(5 + 24 / 5) / 2 = 4\<close>.
  A loop that returned from one of the two states would have returned from the other
  one in fewer rounds: by induction on the definition of the loop it returns from neither.
\<close>

lemma sqrt_24_cycle:
  assumes "sqrt_loop integer cur pre = Some y"
  shows "\<not> (integer = \<lparr>digits = [4, 2], sign = 1\<rparr>
          \<and> (cur = \<lparr>digits = [4], sign = 1\<rparr> \<and> pre = \<lparr>digits = [5], sign = 1\<rparr>
             \<or> cur = \<lparr>digits = [5], sign = 1\<rparr> \<and> pre = \<lparr>digits = [4], sign = 1\<rparr>))"
proof (rule sqrt_loop.raw_induct [where P = "\<lambda>integer cur pre y.
    \<not> (integer = \<lparr>digits = [4, 2], sign = 1\<rparr>
          \<and> (cur = \<lparr>digits = [4], sign = 1\<rparr> \<and> pre = \<lparr>digits = [5], sign = 1\<rparr>
             \<or> cur = \<lparr>digits = [5], sign = 1\<rparr> \<and> pre = \<lparr>digits = [4], sign = 1\<rparr>))",
    OF _ assms])
  fix loop :: "Int_t \<Rightarrow> Int_t \<Rightarrow> Int_t \<Rightarrow> Int_t result" and integer cur pre :: Int_t
    and y :: "error + Int_t"
  assume IH: "\<And>integer cur pre y. loop integer cur pre = Some y \<Longrightarrow>
      \<not> (integer = \<lparr>digits = [4, 2], sign = 1\<rparr>
          \<and> (cur = \<lparr>digits = [4], sign = 1\<rparr> \<and> pre = \<lparr>digits = [5], sign = 1\<rparr>
             \<or> cur = \<lparr>digits = [5], sign = 1\<rparr> \<and> pre = \<lparr>digits = [4], sign = 1\<rparr>))"
  assume body: "(if \<not> operator_eq cur pre
      then bind_result (operator_div integer cur)
            (\<lambda>v. bind_result (operator_div (operator_plus cur v) (Int_int 2))
                  (\<lambda>v. loop integer v cur))
      else Some (Inr cur)) = Some y"
  have e45: "\<not> operator_eq \<lparr>digits = [4], sign = 1\<rparr> \<lparr>digits = [5], sign = 1\<rparr>"
    and e54: "\<not> operator_eq \<lparr>digits = [5], sign = 1\<rparr> \<lparr>digits = [4], sign = 1\<rparr>"
    by code_simp+
  have d4: "operator_div \<lparr>digits = [4, 2], sign = 1\<rparr> \<lparr>digits = [4], sign = 1\<rparr>
      = Some (Inr \<lparr>digits = [6], sign = 1\<rparr>)"
    and a4: "operator_div (operator_plus \<lparr>digits = [4], sign = 1\<rparr> \<lparr>digits = [6], sign = 1\<rparr>) (Int_int 2)
      = Some (Inr \<lparr>digits = [5], sign = 1\<rparr>)"
    and d5: "operator_div \<lparr>digits = [4, 2], sign = 1\<rparr> \<lparr>digits = [5], sign = 1\<rparr>
      = Some (Inr \<lparr>digits = [4], sign = 1\<rparr>)"
    and a5: "operator_div (operator_plus \<lparr>digits = [5], sign = 1\<rparr> \<lparr>digits = [4], sign = 1\<rparr>) (Int_int 2)
      = Some (Inr \<lparr>digits = [4], sign = 1\<rparr>)"
    by code_simp+
  show "\<not> (integer = \<lparr>digits = [4, 2], sign = 1\<rparr>
          \<and> (cur = \<lparr>digits = [4], sign = 1\<rparr> \<and> pre = \<lparr>digits = [5], sign = 1\<rparr>
             \<or> cur = \<lparr>digits = [5], sign = 1\<rparr> \<and> pre = \<lparr>digits = [4], sign = 1\<rparr>))"
  proof
    assume "integer = \<lparr>digits = [4, 2], sign = 1\<rparr>
          \<and> (cur = \<lparr>digits = [4], sign = 1\<rparr> \<and> pre = \<lparr>digits = [5], sign = 1\<rparr>
             \<or> cur = \<lparr>digits = [5], sign = 1\<rparr> \<and> pre = \<lparr>digits = [4], sign = 1\<rparr>)"
    then consider
      "integer = \<lparr>digits = [4, 2], sign = 1\<rparr>" "cur = \<lparr>digits = [4], sign = 1\<rparr>"
        "pre = \<lparr>digits = [5], sign = 1\<rparr>"
      | "integer = \<lparr>digits = [4, 2], sign = 1\<rparr>" "cur = \<lparr>digits = [5], sign = 1\<rparr>"
        "pre = \<lparr>digits = [4], sign = 1\<rparr>"
      by blast
    then show False
    proof cases
      case 1
      with body have "loop \<lparr>digits = [4, 2], sign = 1\<rparr> \<lparr>digits = [5], sign = 1\<rparr>
          \<lparr>digits = [4], sign = 1\<rparr> = Some y"
        by (simp add: e45 d4 a4)
      from IH [OF this] show False
        by simp
    next
      case 2
      with body have "loop \<lparr>digits = [4, 2], sign = 1\<rparr> \<lparr>digits = [4], sign = 1\<rparr>
          \<lparr>digits = [5], sign = 1\<rparr> = Some y"
        by (simp add: e54 d5 a5)
      from IH [OF this] show False
        by simp
    qed
  qed
qed

lemma sqrt_24_seed:
  "sqrt_loop \<lparr>digits = [4, 2], sign = 1\<rparr> \<lparr>digits = [1], sign = 1\<rparr> \<lparr>digits = [1], sign = - 1\<rparr>
   = sqrt_loop \<lparr>digits = [4, 2], sign = 1\<rparr> \<lparr>digits = [4], sign = 1\<rparr> \<lparr>digits = [5], sign = 1\<rparr>"
proof -
  have "sqrt_loop \<lparr>digits = [4, 2], sign = 1\<rparr> \<lparr>digits = [1], sign = 1\<rparr> \<lparr>digits = [1], sign = - 1\<rparr>
      = sqrt_loop \<lparr>digits = [4, 2], sign = 1\<rparr> \<lparr>digits = [2, 1], sign = 1\<rparr> \<lparr>digits = [1], sign = 1\<rparr>"
    by (rule sqrt_loop_step [where q = "\<lparr>digits = [4, 2], sign = 1\<rparr>"]; code_simp)
  also have "\<dots> = sqrt_loop \<lparr>digits = [4, 2], sign = 1\<rparr> \<lparr>digits = [7], sign = 1\<rparr> \<lparr>digits = [2, 1], sign = 1\<rparr>"
    by (rule sqrt_loop_step [where q = "\<lparr>digits = [2], sign = 1\<rparr>"]; code_simp)
  also have "\<dots> = sqrt_loop \<lparr>digits = [4, 2], sign = 1\<rparr> \<lparr>digits = [5], sign = 1\<rparr> \<lparr>digits = [7], sign = 1\<rparr>"
    by (rule sqrt_loop_step [where q = "\<lparr>digits = [3], sign = 1\<rparr>"]; code_simp)
  also have "\<dots> = sqrt_loop \<lparr>digits = [4, 2], sign = 1\<rparr> \<lparr>digits = [4], sign = 1\<rparr> \<lparr>digits = [5], sign = 1\<rparr>"
    by (rule sqrt_loop_step [where q = "\<lparr>digits = [4], sign = 1\<rparr>"]; code_simp)
  finally show ?thesis .
qed

text \<open>
  Claim C2 fails on the code. 24, as \<open>Int("24")\<close> builds it, is not below 16; \<open>Int::sqrt\<close> passes its
  four small cases, starts the iteration at 1 with -1 as the previous iterate, goes
  through 12, 7 and 5 to 4, and then alternates between 4 and 5 for ever: it does not
  return.
\<close>

theorem sqrt_24_never_returns:
  "Int_chars ''24'' = Inr \<lparr>digits = [4, 2], sign = 1\<rparr>
   \<and> operator_ge \<lparr>digits = [4, 2], sign = 1\<rparr> (Int_int 16)
   \<and> int_sqrt \<lparr>digits = [4, 2], sign = 1\<rparr> = None"
proof -
  have v: "Int_chars ''24'' = Inr \<lparr>digits = [4, 2], sign = 1\<rparr>"
    by code_simp
  have g: "operator_ge \<lparr>digits = [4, 2], sign = 1\<rparr> (Int_int 16)"
    by code_simp
  have small: "\<not> is_zero \<lparr>digits = [4, 2], sign = 1\<rparr>"
    "\<not> operator_lt \<lparr>digits = [4, 2], sign = 1\<rparr> (Int_int 4)"
    "\<not> operator_lt \<lparr>digits = [4, 2], sign = 1\<rparr> (Int_int 9)"
    "\<not> operator_lt \<lparr>digits = [4, 2], sign = 1\<rparr> (Int_int 16)"
    by code_simp+
  have pre: "Int_int (- 1) = \<lparr>digits = [1], sign = - 1\<rparr>"
    by code_simp
  have "int_sqrt \<lparr>digits = [4, 2], sign = 1\<rparr>
      = sqrt_loop \<lparr>digits = [4, 2], sign = 1\<rparr> \<lparr>digits = [1], sign = 1\<rparr> \<lparr>digits = [1], sign = - 1\<rparr>"
    by (simp add: int_sqrt_def small pre)
  also have "\<dots> = sqrt_loop \<lparr>digits = [4, 2], sign = 1\<rparr> \<lparr>digits = [4], sign = 1\<rparr> \<lparr>digits = [5], sign = 1\<rparr>"
    by (rule sqrt_24_seed)
  also have "\<dots> = None"
    using sqrt_24_cycle [of "\<lparr>digits = [4, 2], sign = 1\<rparr>" "\<lparr>digits = [4], sign = 1\<rparr>"
        "\<lparr>digits = [5], sign = 1\<rparr>"]
    by (cases "sqrt_loop \<lparr>digits = [4, 2], sign = 1\<rparr> \<lparr>digits = [4], sign = 1\<rparr> \<lparr>digits = [5], sign = 1\<rparr>")
      auto
  finally show ?thesis
    using v g by simp
qed

section \<open>The representation invariant\<close>

lemma uniform_range:
  "lo \<le> hi \<Longrightarrow> lo \<le> uniform_int_distribution lo hi g \<and> uniform_int_distribution lo hi g \<le> hi"
proof -
  assume "lo \<le> hi"
  then have "0 < hi - lo + 1" by simp
  then have "0 \<le> int g mod (hi - lo + 1)" "int g mod (hi - lo + 1) < hi - lo + 1"
    by (rule pos_mod_sign, rule pos_mod_bound)
  then show ?thesis
    by (simp add: uniform_int_distribution_def)
qed

lemma Int_random_valid:
  assumes "Int_random n_digits gen = Inr x"
  shows "valid x"
proof -
  define n where "n = (if n_digits = - 1 then nat (uniform_int_distribution 0 4300 (gen 0))
                 else nat (sint n_digits))"
  define k :: nat where "k = (if n_digits = - 1 then 1 else 0)"
  define ds where "ds = map (\<lambda>i. uniform_int_distribution 0 9 (gen (k + i))) [0..<n]"
  define top where "top = uniform_int_distribution 1 9 (gen (k + n))"
  define ds1 where "ds1 = (if ds \<noteq> [] \<and> last ds = 0 then ds[n - 1 := top] else ds)"
  have "\<not> n_digits <s - 1"
    using assms by (auto simp: Int_random_def split: if_splits)
  then have "Int_random n_digits gen = Inr \<lparr>digits = ds1, sign = (if ds = [] then 0 else 1)\<rparr>"
    unfolding Int_random_def Let_def n_def k_def ds_def top_def ds1_def
    by (simp only: if_False)
  with assms have x: "x = \<lparr>digits = ds1, sign = (if ds = [] then 0 else 1)\<rparr>"
    by simp
  have len: "length ds = n"
    by (simp add: ds_def)
  have ok: "digits_ok ds"
    using uniform_range [of 0 9] by (auto simp: ds_def digits_ok_def)
  have t: "1 \<le> top" "top \<le> 9"
    using uniform_range [of 1 9 "gen (k + n)"] by (simp_all add: top_def)
  have ok1: "digits_ok ds1"
    using ok t by (auto simp: ds1_def digits_ok_def dest!: set_update_subset_insert [THEN subsetD])
  have e: "ds1 = [] \<longleftrightarrow> ds = []"
    by (simp add: ds1_def)
  have l: "last ds1 \<noteq> 0" if "ds \<noteq> []"
  proof (cases "last ds = 0")
    case True
    with that have "ds1 = ds[n - 1 := top]"
      by (simp add: ds1_def)
    then have "last ds1 = top"
      using that len by (simp add: last_list_update)
    with t show ?thesis by simp
  next
    case False
    then show ?thesis by (simp add: ds1_def)
  qed
  show ?thesis
    using ok1 e l by (auto simp: x valid_alt)
qed

lemma Int_chars_valid:
  assumes "Int_chars chars = Inr x"
  shows "valid x"
proof -
  define len where "len = strlen chars"
  define s :: nat where "s = (if chars ! 0 = CHR ''-'' \<or> chars ! 0 = CHR ''+'' then 1 else 0)"
  define ds where "ds = map (\<lambda>i. int (of_char (chars ! (len - 1 - i))) - int (of_char CHR ''0''))
                     [0..<len - s]"
  define sign0 :: int where "sign0 = (if chars ! 0 = CHR ''-'' then - 1 else 1)"
  have int: "is_integer chars len"
    using assms by (auto simp: Int_chars_def Let_def len_def split: if_splits)
  then have "is_integer_loop chars s len"
    by (auto simp: is_integer_def s_def split: if_splits)
  then have dg: "\<forall>j. s \<le> j \<and> j < len \<longrightarrow> is_digit (chars ! j)"
    by (simp add: is_integer_loop_iff)
  have "Int_chars chars
      = Inr (let r = remove_leading_zeros \<lparr>digits = ds, sign = sign0\<rparr>
             in r\<lparr>sign := (if digits r = [] then 0 else sign r)\<rparr>)"
    using int unfolding Int_chars_def Let_def len_def s_def ds_def sign0_def
    by (simp only: simp_thms if_False)
  with assms have x: "x = \<lparr>digits = strip ds, sign = (if strip ds = [] then 0 else sign0)\<rparr>"
    by (auto simp: Let_def remove_leading_zeros_eq)
  have "digits_ok ds"
  proof (rule digits_okI)
    fix i assume "i < length ds"
    then have i: "i < len - s"
      by (simp add: ds_def)
    then have "is_digit (chars ! (len - 1 - i))"
      using dg by simp
    then have "0 \<le> dig (chars ! (len - 1 - i)) \<and> dig (chars ! (len - 1 - i)) \<le> 9"
      by (rule dig_range)
    with i show "0 \<le> ds ! i \<and> ds ! i \<le> 9"
      by (simp add: ds_def dig_def)
  qed
  moreover have "sign0 = 1 \<or> sign0 = - 1"
    by (simp add: sign0_def)
  ultimately show ?thesis
    unfolding x by (rule valid_normalised)
qed

text \<open>
  Every producer but the constructor from \<open>int\<close> at the least \<open>int\<close> keeps the invariant:
  what it returns from valid operands is valid.
\<close>

lemma invariant_preserved:
  "valid Int_default"
  "Int_chars chars = Inr x \<Longrightarrow> valid x"
  "i \<noteq> - 2147483648 \<Longrightarrow> valid (Int_int i)"
  "Int_random n_digits gen = Inr x \<Longrightarrow> valid x"
  "valid a \<Longrightarrow> valid (operator_neg a)"
  "valid a \<Longrightarrow> valid (int_abs a)"
  "valid a \<Longrightarrow> valid b \<Longrightarrow> valid (operator_plus a b)"
  "valid a \<Longrightarrow> valid b \<Longrightarrow> valid (operator_minus a b)"
  "valid a \<Longrightarrow> valid b \<Longrightarrow> valid (operator_times a b)"
  "valid a \<Longrightarrow> valid b \<Longrightarrow> operator_div a b = Some (Inr x) \<Longrightarrow> valid x"
  "valid a \<Longrightarrow> valid b \<Longrightarrow> operator_mod a b = Some (Inr x) \<Longrightarrow> valid x"
  "valid a \<Longrightarrow> operator_inc a = Some x \<Longrightarrow> valid x"
  "valid a \<Longrightarrow> operator_dec a = Some x \<Longrightarrow> valid x"
  "valid a \<Longrightarrow> valid b \<Longrightarrow> int_gcd a b = Some (Inr x) \<Longrightarrow> valid x"
proof -
  show "valid Int_default" by simp
  show "Int_chars chars = Inr x \<Longrightarrow> valid x" by (rule Int_chars_valid)
  show "i \<noteq> - 2147483648 \<Longrightarrow> valid (Int_int i)" by (rule Int_int_correct)
  show "Int_random n_digits gen = Inr x \<Longrightarrow> valid x" by (rule Int_random_valid)
  show "valid a \<Longrightarrow> valid (operator_neg a)" by (rule operator_neg_correct)
  show "valid a \<Longrightarrow> valid (int_abs a)" by (rule int_abs_correct)
  show "valid a \<Longrightarrow> valid b \<Longrightarrow> valid (operator_plus a b)" by (rule operator_plus_correct)
  show "valid a \<Longrightarrow> valid b \<Longrightarrow> valid (operator_minus a b)" by (rule operator_minus_correct)
  show "valid a \<Longrightarrow> valid b \<Longrightarrow> valid (operator_times a b)" by (rule operator_times_correct)
  show "valid a \<Longrightarrow> valid b \<Longrightarrow> operator_div a b = Some (Inr x) \<Longrightarrow> valid x"
    using operator_div_correct [of a b] by (cases "sign b = 0") (auto simp: operator_div_def)
  show "valid a \<Longrightarrow> valid b \<Longrightarrow> operator_mod a b = Some (Inr x) \<Longrightarrow> valid x"
    using operator_mod_correct [of a b] by (cases "sign b = 0") (auto simp: operator_mod_def)
  show "valid a \<Longrightarrow> operator_inc a = Some x \<Longrightarrow> valid x"
    using operator_inc_correct [of a] by auto
  show "valid a \<Longrightarrow> operator_dec a = Some x \<Longrightarrow> valid x"
    using operator_dec_correct [of a] by auto
  show "valid a \<Longrightarrow> valid b \<Longrightarrow> int_gcd a b = Some (Inr x) \<Longrightarrow> valid x"
    using gcd_loop_correct [of a b] by (auto simp: int_gcd_def)
qed

text \<open>
  Claim C5 fails on the code at one input. \<open>Int(int)\<close> on the least \<open>int\<close>,
  -2147483648, sets the sign to -1; the absolute value overflows and stays negative,
  so the loop that pushes the digits does not run: the object has a sign that is not
  zero and no digit, and it is written as a lone \<open>-\<close>.
\<close>

theorem Int_of_least_int_has_sign_without_digits:
  "digits (Int_int (- 2147483648)) = [] \<and> sign (Int_int (- 2147483648)) = - 1
   \<and> operator_out (Int_int (- 2147483648)) = ''-''"
  by code_simp

section \<open>The hash agrees with equality\<close>

text \<open>
  Claim C10. If \<open>a == b\<close> (same sign and same digit sequence) then the hash of \<open>a\<close>
  is the hash of \<open>b\<close>, whatever the standard library's hash of a \<open>signed char\<close> is.
\<close>

theorem hash_respects_operator_eq:
  "operator_eq a b \<Longrightarrow> hash h a = hash h b"
  by (simp add: operator_eq_def hash_def)

theorem hash_respects_operator_eq_witness:
  "operator_eq (Int_int 907) \<lparr>digits = [7, 0, 9], sign = 1\<rparr>
   \<and> hash (word_of_int :: int \<Rightarrow> 64 word) (Int_int 907)
       = hash word_of_int \<lparr>digits = [7, 0, 9], sign = 1\<rparr>"
proof -
  have e: "operator_eq (Int_int 907) \<lparr>digits = [7, 0, 9], sign = 1\<rparr>"
    by code_simp
  from e hash_respects_operator_eq [OF e] show ?thesis
    by blast
qed

end
